theory Spec2Isabelle
  imports Main "HOL-Library.Stream"
begin

section \<open>Slot codes: decimal strings\<close>

text \<open>
  The signalling server of \<^verbatim>\<open>cmd/ww/server.go\<close> names a slot by
  \<^verbatim>\<open>strconv.Itoa(rand.Intn(n))\<close>. Both functions belong to Go's standard library;
  they are written out here from their documented behaviour. \<^verbatim>\<open>strconv\<close> formats
  in base 10 by indexing the digit table \<^verbatim>\<open>"0123456789..."\<close> with the remainders, most
  significant digit first, and writes a minus sign before a negative number.
\<close>

definition digits :: string where
  "digits = ''0123456789''"

fun formatBits :: "nat \<Rightarrow> string" where
  "formatBits u =
     (if u < 10 then [digits ! u] else formatBits (u div 10) @ [digits ! (u mod 10)])"

declare formatBits.simps [simp del]

definition Itoa :: "int \<Rightarrow> string" where
  "Itoa i = (if i < 0 then CHR ''-'' # formatBits (nat (- i)) else formatBits (nat i))"

text \<open>
  The state of the process-wide pseudo-random source is the stream of raw values it is
  still going to produce. \<^verbatim>\<open>rand.Intn(n)\<close> consumes one of them and returns a number of
  the half-open interval from 0 to \<open>n\<close>.
\<close>

definition Intn :: "nat \<Rightarrow> nat stream \<Rightarrow> nat \<times> nat stream" where
  "Intn n g = (shd g mod n, stl g)"

section \<open>The allocator \<^verbatim>\<open>freeslot\<close>\<close>

text \<open>
  Each of the four \<^verbatim>\<open>for\<close> loops of \<^verbatim>\<open>freeslot\<close> (lines 55 to 81) is
  \<open>attempts k n\<close>: up to \<open>k\<close> times it draws \<open>s = Itoa (Intn n)\<close> and returns \<open>s\<close> at
  once when \<open>s\<close> is not a key of the map. The map \<open>m\<close> is \<^verbatim>\<open>slots.m\<close>.
\<close>

fun attempts ::
  "nat \<Rightarrow> nat \<Rightarrow> (string \<rightharpoonup> 'c) \<Rightarrow> nat stream \<Rightarrow> string option \<times> nat stream" where
  "attempts 0 n m g = (None, g)"
| "attempts (Suc k) n m g =
     (case Intn n g of (r, g') \<Rightarrow>
        let s = Itoa (int r) in
        if m s = None then (Some s, g') else attempts k n m g')"

definition freeslot ::
  "(string \<rightharpoonup> 'c) \<Rightarrow> nat stream \<Rightarrow> (string \<times> bool) \<times> nat stream" where
  "freeslot m g =
     (case attempts 3 10 m g of
        (Some s, g1) \<Rightarrow> ((s, True), g1)
      | (None, g1) \<Rightarrow>
     (case attempts 64 (2 ^ 8) m g1 of
        (Some s, g2) \<Rightarrow> ((s, True), g2)
      | (None, g2) \<Rightarrow>
     (case attempts 1024 (2 ^ 16) m g2 of
        (Some s, g3) \<Rightarrow> ((s, True), g3)
      | (None, g3) \<Rightarrow>
     (case attempts 1024 (2 ^ 24) m g3 of
        (Some s, g4) \<Rightarrow> ((s, True), g4)
      | (None, g4) \<Rightarrow> (('''', False), g4)))))"

text \<open>
  The specification's table of bands, written as the list of the 3 + 64 + 1024 + 1024
  candidate codes that the random source \<open>g\<close> offers: draw number \<open>i\<close> reduced to the
  range of the band it falls in.
\<close>

definition band :: "nat \<Rightarrow> nat \<Rightarrow> nat \<Rightarrow> nat stream \<Rightarrow> string list" where
  "band lo hi n g = map (\<lambda>i. Itoa (int (g !! i mod n))) [lo..<hi]"

definition candidates :: "nat stream \<Rightarrow> string list" where
  "candidates g =
     band 0 3 10 g @ band 3 67 (2 ^ 8) g @ band 67 1091 (2 ^ 16) g @ band 1091 2115 (2 ^ 24) g"

definition freeslot_spec :: "(string \<rightharpoonup> 'c) \<Rightarrow> nat stream \<Rightarrow> string \<times> bool" where
  "freeslot_spec m g =
     (case find (\<lambda>s. m s = None) (candidates g) of
        Some s \<Rightarrow> (s, True)
      | None \<Rightarrow> ('''', False))"

section \<open>Canonical decimal codes\<close>

text \<open>
  A canonical code, in the words of the specification: digits only, no sign, no leading
  zero, and the value of an integer below \<open>2 ^ 24\<close>.
\<close>

definition digitval :: "char \<Rightarrow> nat" where
  "digitval c = length (takeWhile (\<lambda>d. d \<noteq> c) digits)"

definition decval :: "string \<Rightarrow> nat" where
  "decval s = foldl (\<lambda>a c. 10 * a + digitval c) 0 s"

definition canonical :: "string \<Rightarrow> bool" where
  "canonical s \<longleftrightarrow>
     s \<noteq> [] \<and> list_all (\<lambda>c. c \<in> set digits) s \<and> (hd s = CHR ''0'' \<longrightarrow> s = ''0'')
     \<and> decval s < 2 ^ 24"

section \<open>The relay: connections, goroutines and the slot table\<close>

text \<open>
  \<^verbatim>\<open>relay\<close> (lines 94 to 195) runs once per upgraded WebSocket. It starts a goroutine
  (lines 105 to 176) that books or joins a slot, and itself loops over
  \<^verbatim>\<open>conn.ReadMessage\<close> (lines 179 to 194). All handlers share \<^verbatim>\<open>slots\<close>, a map guarded
  by a mutex. The model is an interleaving of the handlers: each step executes one
  statement that touches shared state (the mutex, the map, a channel, a connection,
  the context, \<^verbatim>\<open>rconn\<close>), together with the local statements around it.

  A connection is identified by a number and so is a channel made by
  \<^verbatim>\<open>make(chan *websocket.Conn)\<close>.
\<close>

type_synonym conn = nat
type_synonym chan = nat

text \<open>Message types of the WebSocket library, and the close codes of lines 39 to 43.\<close>

definition TextMessage :: int where
  "TextMessage = 1"

definition BinaryMessage :: int where
  "BinaryMessage = 2"

definition CloseNoSuchSlot :: int where
  "CloseNoSuchSlot = 4000 + 0"

definition CloseSlotTimedOut :: int where
  "CloseSlotTimedOut = 4000 + 1"

definition CloseNoMoreSlots :: int where
  "CloseNoMoreSlots = 4000 + 2"

text \<open>
  What the server does to a connection, in order: \<open>Message t p\<close> is a successful
  \<^verbatim>\<open>WriteMessage(t, p)\<close>, \<open>CloseFrame code reason\<close> is
  \<^verbatim>\<open>WriteControl(CloseMessage, FormatCloseMessage(code, reason), ...)\<close> and \<open>ConnClosed\<close> is
  \<^verbatim>\<open>Close()\<close>.
\<close>

datatype wire = Message int string | CloseFrame int string | ConnClosed

text \<open>
  The program point of a handler's goroutine, named by the line of \<^verbatim>\<open>server.go\<close> that it
  executes next. The points after line 121 carry the goroutine's local channel \<^verbatim>\<open>sc\<close>.
  \<open>Idle\<close> is a connection number not in use yet, \<open>Returned\<close> a goroutine that has
  returned.
\<close>

datatype gpc =
    Idle
  | L106
  | L108 | L109 | L111 | L112
  | L121 | L123 chan | L125 chan
  | L130 chan | L133 | L134 | L135 | L136
  | L145 chan
  | L150 | L151 | L153 | L154
  | L162 chan | L163 chan
  | L165 chan
  | L175 chan
  | Returned

record state =
  slots :: "string \<rightharpoonup> chan"
  lock :: "conn option"
  nextchan :: chan
  rng :: "nat stream"
  pc :: "conn \<Rightarrow> gpc"
  looping :: "conn \<Rightarrow> bool"
  slotkey :: "conn \<Rightarrow> string"
  rconn :: "conn \<Rightarrow> conn option"
  ctxdone :: "conn \<Rightarrow> bool"
  sent :: "conn \<Rightarrow> wire list"

definition init :: "nat stream \<Rightarrow> state" where
  "init g =
     \<lparr>slots = Map.empty, lock = None, nextchan = 0, rng = g, pc = (\<lambda>c. Idle),
      looping = (\<lambda>c. False), slotkey = (\<lambda>c. []), rconn = (\<lambda>c. None),
      ctxdone = (\<lambda>c. False), sent = (\<lambda>c. [])\<rparr>"

definition goto :: "conn \<Rightarrow> gpc \<Rightarrow> state \<Rightarrow> state" where
  "goto c p s = s\<lparr>pc := (pc s)(c := p)\<rparr>"

definition emit :: "conn \<Rightarrow> wire list \<Rightarrow> state \<Rightarrow> state" where
  "emit c os s = s\<lparr>sent := (sent s)(c := sent s c @ os)\<rparr>"

text \<open>
  Lines 95 to 105 and 178: a request for \<^verbatim>\<open>/s/<key>\<close> is upgraded; the handler keeps
  the path suffix in \<^verbatim>\<open>slotkey\<close>, leaves \<^verbatim>\<open>rconn\<close> nil, derives a context with the
  30-minute timeout, starts the goroutine and enters its read loop.
\<close>

definition upgrade :: "conn \<Rightarrow> string \<Rightarrow> state \<Rightarrow> state" where
  "upgrade c key s =
     (if pc s c = Idle
      then s\<lparr>pc := (pc s)(c := L106), looping := (looping s)(c := True),
             slotkey := (slotkey s)(c := key)\<rparr>
      else s)"

text \<open>
  One step of the goroutine at a point where it neither waits for a channel or the
  context nor writes the slot code. \<^verbatim>\<open>Lock\<close> (lines 108, 133, 150) can only be taken
  while nobody holds the mutex; the goroutine waits otherwise.
\<close>

definition go :: "conn \<Rightarrow> state \<Rightarrow> state" where
  "go c s =
     (case pc s c of
        L106 \<Rightarrow> goto c (if slotkey s c = [] then L108 else L150) s
      | L108 \<Rightarrow> (if lock s = None then goto c L109 (s\<lparr>lock := Some c\<rparr>) else s)
      | L109 \<Rightarrow>
          (case freeslot (slots s) (rng s) of
             ((newslot, ok), g') \<Rightarrow>
               if \<not> ok then goto c L111 (s\<lparr>rng := g'\<rparr>)
               else goto c L121 (s\<lparr>rng := g', slotkey := (slotkey s)(c := newslot)\<rparr>))
      | L111 \<Rightarrow> goto c L112 (s\<lparr>lock := None\<rparr>)
      | L112 \<Rightarrow>
          goto c Returned
            (emit c [CloseFrame CloseNoMoreSlots ''cannot allocate slots'', ConnClosed] s)
      | L121 \<Rightarrow>
          goto c (L123 (nextchan s))
            (s\<lparr>slots := (slots s)(slotkey s c \<mapsto> nextchan s), nextchan := Suc (nextchan s)\<rparr>)
      | L123 sc \<Rightarrow> goto c (L125 sc) (s\<lparr>lock := None\<rparr>)
      | L133 \<Rightarrow> (if lock s = None then goto c L134 (s\<lparr>lock := Some c\<rparr>) else s)
      | L134 \<Rightarrow> goto c L135 (s\<lparr>slots := (slots s)(slotkey s c := None)\<rparr>)
      | L135 \<Rightarrow> goto c L136 (s\<lparr>lock := None\<rparr>)
      | L136 \<Rightarrow>
          goto c Returned (emit c [CloseFrame CloseSlotTimedOut ''timed out'', ConnClosed] s)
      | L150 \<Rightarrow> (if lock s = None then goto c L151 (s\<lparr>lock := Some c\<rparr>) else s)
      | L151 \<Rightarrow>
          (case slots s (slotkey s c) of
             None \<Rightarrow> goto c L153 s
           | Some sc \<Rightarrow> goto c (L162 sc) s)
      | L153 \<Rightarrow> goto c L154 (s\<lparr>lock := None\<rparr>)
      | L154 \<Rightarrow>
          goto c Returned (emit c [CloseFrame CloseNoSuchSlot ''no such slot'', ConnClosed] s)
      | L162 sc \<Rightarrow> goto c (L163 sc) (s\<lparr>slots := (slots s)(slotkey s c := None)\<rparr>)
      | L163 sc \<Rightarrow> goto c (L165 sc) (s\<lparr>lock := None\<rparr>)
      | _ \<Rightarrow> s)"

text \<open>
  Lines 125 to 129: the booker's code is written as a text frame; \<open>ok\<close> tells whether
  \<^verbatim>\<open>WriteMessage\<close> succeeded. On an error the goroutine logs it and returns.
\<close>

definition write_code :: "conn \<Rightarrow> bool \<Rightarrow> state \<Rightarrow> state" where
  "write_code c ok s =
     (case pc s c of
        L125 sc \<Rightarrow>
          if ok then goto c (L130 sc) (emit c [Message TextMessage (slotkey s c)] s)
          else goto c Returned s
      | _ \<Rightarrow> s)"

text \<open>
  The timer of \<^verbatim>\<open>context.WithTimeout(r.Context(), slotTimeout)\<close> (line 103) fires, 30
  minutes after the upgrade. Time is not measured: the event may come at any moment.
\<close>

definition expire :: "conn \<Rightarrow> state \<Rightarrow> state" where
  "expire c s = (if pc s c = Idle then s else s\<lparr>ctxdone := (ctxdone s)(c := True)\<rparr>)"

text \<open>
  The \<^verbatim>\<open>case <-ctx.Done()\<close> branch of a \<^verbatim>\<open>select\<close>, which can be taken once the context
  is done. The booker (lines 131 to 133) goes on to lock the table. The joiner (lines
  166 to 172) writes the close frame and closes, and then leaves the \<^verbatim>\<open>select\<close>: the
  branch has no \<^verbatim>\<open>return\<close>, so it goes on to line 175.
\<close>

definition ctx_done :: "conn \<Rightarrow> state \<Rightarrow> state" where
  "ctx_done c s =
     (if ctxdone s c then
        (case pc s c of
           L130 sc \<Rightarrow> goto c L133 s
         | L165 sc \<Rightarrow>
             goto c (L175 sc)
               (emit c [CloseFrame CloseSlotTimedOut ''timed out'', ConnClosed] s)
         | _ \<Rightarrow> s)
      else s)"

text \<open>
  A communication on an unbuffered channel: a goroutine that sends its own connection on
  \<open>sc\<close> (\<^verbatim>\<open>sc <- conn\<close>, lines 143 and 175) meets one that receives from \<open>sc\<close> into its
  \<^verbatim>\<open>rconn\<close> (\<^verbatim>\<open>rconn = <-sc\<close>, lines 145 and 173).
\<close>

fun sending :: "gpc \<Rightarrow> chan option" where
  "sending (L130 sc) = Some sc"
| "sending (L175 sc) = Some sc"
| "sending p = None"

fun receiving :: "gpc \<Rightarrow> chan option" where
  "receiving (L145 sc) = Some sc"
| "receiving (L165 sc) = Some sc"
| "receiving p = None"

fun after_send :: "gpc \<Rightarrow> gpc" where
  "after_send (L130 sc) = L145 sc"
| "after_send p = Returned"

fun after_recv :: "gpc \<Rightarrow> gpc" where
  "after_recv (L165 sc) = L175 sc"
| "after_recv p = Returned"

definition handoff :: "conn \<Rightarrow> conn \<Rightarrow> state \<Rightarrow> state" where
  "handoff a b s =
     (case (sending (pc s a), receiving (pc s b)) of
        (Some sc, Some sc') \<Rightarrow>
          if sc = sc'
          then s\<lparr>pc := (pc s)(a := after_send (pc s a), b := after_recv (pc s b)),
                 rconn := (rconn s)(b := Some a)\<rparr>
          else s
      | _ \<Rightarrow> s)"

text \<open>
  One iteration of the read loop, lines 179 to 194. \<open>r\<close> is what \<^verbatim>\<open>ReadMessage\<close>
  returns (\<open>None\<close> for an error, else the message type and the payload) and \<open>wok\<close>
  tells whether the \<^verbatim>\<open>WriteMessage\<close> of line 190 succeeds. Every \<^verbatim>\<open>return\<close> runs the
  deferred \<^verbatim>\<open>cancel()\<close> of line 178, which ends the context.
\<close>

definition loop_return :: "conn \<Rightarrow> state \<Rightarrow> state" where
  "loop_return c s =
     s\<lparr>looping := (looping s)(c := False), ctxdone := (ctxdone s)(c := True)\<rparr>"

definition read_loop :: "conn \<Rightarrow> (int \<times> string) option \<Rightarrow> bool \<Rightarrow> state \<Rightarrow> state" where
  "read_loop c r wok s =
     (if \<not> looping s c then s
      else
        (case r of
           None \<Rightarrow> loop_return c s
         | Some (messageType, p) \<Rightarrow>
             (case rconn s c of
                None \<Rightarrow> loop_return c s
              | Some rc \<Rightarrow>
                  if wok then emit rc [Message messageType p] s
                  else loop_return c s)))"

text \<open>The interleaving: a run is a list of events, each one step of one handler.\<close>

datatype event =
    Upgrade conn string
  | Go conn
  | WriteCode conn bool
  | Expire conn
  | CtxDone conn
  | Handoff conn conn
  | Read conn "(int \<times> string) option" bool

fun step :: "event \<Rightarrow> state \<Rightarrow> state" where
  "step (Upgrade c key) s = upgrade c key s"
| "step (Go c) s = go c s"
| "step (WriteCode c ok) s = write_code c ok s"
| "step (Expire c) s = expire c s"
| "step (CtxDone c) s = ctx_done c s"
| "step (Handoff a b) s = handoff a b s"
| "step (Read c r wok) s = read_loop c r wok s"

primrec run :: "event list \<Rightarrow> state \<Rightarrow> state" where
  "run [] s = s"
| "run (e # es) s = run es (step e s)"

text \<open>The program points at which a goroutine holds the mutex.\<close>

fun crit :: "gpc \<Rightarrow> bool" where
  "crit L109 = True"
| "crit L111 = True"
| "crit L121 = True"
| "crit (L123 sc) = True"
| "crit L134 = True"
| "crit L135 = True"
| "crit L151 = True"
| "crit L153 = True"
| "crit (L162 sc) = True"
| "crit (L163 sc) = True"
| "crit p = False"

section \<open>Invariants of the reachable states\<close>

text \<open>A goroutine is at a program point between \<^verbatim>\<open>Lock\<close> and \<^verbatim>\<open>Unlock\<close> exactly when it
  is the holder of the mutex.\<close>

definition lock_inv :: "state \<Rightarrow> bool" where
  "lock_inv s \<longleftrightarrow> (\<forall>c. crit (pc s c) = (lock s = Some c))"

text \<open>
  Every channel in the table was made before (its number is below the next one to be
  made), no channel is under two codes, and a joiner that has looked its code up but not
  yet deleted it (line 162) still finds the channel it saw.
\<close>

definition table_inv :: "state \<Rightarrow> bool" where
  "table_inv s \<longleftrightarrow>
     (\<forall>k ch. slots s k = Some ch \<longrightarrow> ch < nextchan s)
     \<and> (\<forall>k k' ch. slots s k = Some ch \<longrightarrow> slots s k' = Some ch \<longrightarrow> k = k')
     \<and> (\<forall>c sc. pc s c = L162 sc \<longrightarrow> slots s (slotkey s c) = Some sc)"

text \<open>
  Every key of the table is canonical, and so is the code of a booker about to insert it
  (line 121) and of a joiner that found its code in the table.
\<close>

definition key_inv :: "state \<Rightarrow> bool" where
  "key_inv s \<longleftrightarrow>
     (\<forall>k ch. slots s k = Some ch \<longrightarrow> canonical k)
     \<and> (\<forall>c. pc s c = L121 \<longrightarrow> canonical (slotkey s c))
     \<and> (\<forall>c sc. pc s c = L162 sc \<or> pc s c = L163 sc \<or> pc s c = L165 sc \<or> pc s c = L175 sc
           \<longrightarrow> canonical (slotkey s c))"

text \<open>The close frames written so far carry one of the three codes, each with its reason.\<close>

definition close_inv :: "state \<Rightarrow> bool" where
  "close_inv s \<longleftrightarrow>
     (\<forall>c code reason. CloseFrame code reason \<in> set (sent s c) \<longrightarrow>
        (code, reason) \<in> {(4000, ''no such slot''), (4001, ''timed out''),
          (4002, ''cannot allocate slots'')})"

text \<open>
  \<open>after_take c1 sc K tbl n\<close> describes the states that follow the moment at which joiner
  \<open>c1\<close> found channel \<open>sc\<close> under code \<open>K\<close> (line 151), in a table \<open>tbl\<close> whose channels
  are all below \<open>n\<close>. Either \<open>c1\<close> is still before its \<^verbatim>\<open>delete\<close> of line 162 and the
  table is the one it looked at, or it is past it, and then every entry is an entry of
  \<open>tbl\<close> other than \<open>sc\<close>, or was booked later.
\<close>

definition after_take ::
  "conn \<Rightarrow> chan \<Rightarrow> string \<Rightarrow> (string \<rightharpoonup> chan) \<Rightarrow> nat \<Rightarrow> state \<Rightarrow> bool" where
  "after_take c1 sc K tbl n s \<longleftrightarrow>
     n \<le> nextchan s \<and>
     (pc s c1 = L162 sc \<and> slots s = tbl \<and> slotkey s c1 = K
      \<or> (pc s c1 = L163 sc \<or> pc s c1 = L165 sc \<or> pc s c1 = L175 sc \<or> pc s c1 = Returned)
        \<and> (\<forall>k ch. slots s k = Some ch \<longrightarrow> tbl k = Some ch \<and> ch \<noteq> sc \<or> n \<le> ch))"

text \<open>
  The channel a booker holds in its local \<^verbatim>\<open>sc\<close> (from line 121 on), and the channel a
  joiner holds (from the lookup of line 151 on).
\<close>

fun bholds :: "gpc \<Rightarrow> chan option" where
  "bholds (L123 sc) = Some sc"
| "bholds (L125 sc) = Some sc"
| "bholds (L130 sc) = Some sc"
| "bholds (L145 sc) = Some sc"
| "bholds p = None"

fun jholds :: "gpc \<Rightarrow> chan option" where
  "jholds (L162 sc) = Some sc"
| "jholds (L163 sc) = Some sc"
| "jholds (L165 sc) = Some sc"
| "jholds (L175 sc) = Some sc"
| "jholds p = None"

text \<open>
  A channel held by a booker was made before, is held by no other booker, and is in the
  table under the booker's own code at most. A channel held by a joiner was made before
  and, once the joiner has executed its \<^verbatim>\<open>delete\<close>, is under no code of the table.
\<close>

definition chan_inv :: "state \<Rightarrow> bool" where
  "chan_inv s \<longleftrightarrow>
     (\<forall>c sc. bholds (pc s c) = Some sc \<longrightarrow> sc < nextchan s)
     \<and> (\<forall>c c' sc. bholds (pc s c) = Some sc \<longrightarrow> bholds (pc s c') = Some sc \<longrightarrow> c = c')
     \<and> (\<forall>c sc k. bholds (pc s c) = Some sc \<longrightarrow> slots s k = Some sc \<longrightarrow> k = slotkey s c)
     \<and> (\<forall>c sc. jholds (pc s c) = Some sc \<longrightarrow> sc < nextchan s)
     \<and> (\<forall>c sc k. jholds (pc s c) = Some sc \<longrightarrow> pc s c \<noteq> L162 sc \<longrightarrow> slots s k \<noteq> Some sc)"

text \<open>No connection other than \<open>c1\<close> holds channel \<open>sc\<close> as a joiner.\<close>

definition sole_joiner :: "conn \<Rightarrow> chan \<Rightarrow> state \<Rightarrow> bool" where
  "sole_joiner c1 sc s \<longleftrightarrow> (\<forall>c2. c2 \<noteq> c1 \<longrightarrow> jholds (pc s c2) \<noteq> Some sc)"

text \<open>
  \<open>after_timeout c sc K n\<close> describes the states that follow the moment at which booker
  \<open>c\<close>, holding channel \<open>sc\<close> for its code \<open>K\<close>, took the \<^verbatim>\<open>ctx.Done()\<close> branch of line 131,
  when the next channel to be made was \<open>n\<close>. Before its \<^verbatim>\<open>delete\<close> of line 134 the channel
  is in the table under \<open>K\<close> at most; after it the channel is under no code, and whatever
  is under \<open>K\<close> was made later.
\<close>

definition after_timeout :: "conn \<Rightarrow> chan \<Rightarrow> string \<Rightarrow> nat \<Rightarrow> state \<Rightarrow> bool" where
  "after_timeout c sc K n s \<longleftrightarrow>
     n \<le> nextchan s \<and> slotkey s c = K \<and>
     ((pc s c = L133 \<or> pc s c = L134) \<and> (\<forall>k. slots s k = Some sc \<longrightarrow> k = K)
      \<or> (pc s c = L135 \<or> pc s c = L136 \<or> pc s c = Returned)
        \<and> (\<forall>k. slots s k \<noteq> Some sc) \<and> (\<forall>ch. slots s K = Some ch \<longrightarrow> n \<le> ch))"

section \<open>Two scenarios\<close>

text \<open>
  Connection 0 books a slot and is told its code; then connection 1 joins with the code
  \<^verbatim>\<open>7\<close> and the two goroutines exchange their connections. With a random source that
  draws 7 first, the code booked is \<^verbatim>\<open>7\<close>.
\<close>

definition booked :: "event list" where
  "booked = [Upgrade 0 [], Go 0, Go 0, Go 0, Go 0, Go 0, WriteCode 0 True]"

definition paired :: "event list" where
  "paired =
     booked @ [Upgrade 1 ''7'', Go 1, Go 1, Go 1, Go 1, Go 1, Handoff 0 1, Handoff 1 0]"

section \<open>Properties of the allocator\<close>

lemma attempts_numeral:
  "attempts (numeral k) n m g =
     (case Intn n g of (r, g') \<Rightarrow>
        let s = Itoa (int r) in
        if m s = None then (Some s, g') else attempts (pred_numeral k) n m g')"
  by (simp add: numeral_eq_Suc)

lemma find_append:
  "find P (xs @ ys) = (case find P xs of None \<Rightarrow> find P ys | Some x \<Rightarrow> Some x)"
  by (induction xs) auto

lemma attempts_find:
  "fst (attempts k n m g) = find (\<lambda>s. m s = None) (band 0 k n g)"
proof (induction k arbitrary: g)
  case 0
  show ?case by (simp add: band_def)
next
  case (Suc k)
  have "band 0 (Suc k) n g = Itoa (int (shd g mod n)) # band 0 k n (stl g)"
    unfolding band_def by (simp add: map_upt_Suc del: upt_Suc)
  then show ?case using Suc.IH [of "stl g"]
    by (simp add: Intn_def Let_def)
qed

lemma attempts_rng:
  "fst (attempts k n m g) = None \<Longrightarrow> snd (attempts k n m g) = sdrop k g"
  by (induction k arbitrary: g) (auto simp: Intn_def Let_def split: if_splits)

lemma band_shift: "band 0 k n (sdrop j g) = band j (j + k) n g"
proof -
  have "[j..<j + k] = map (\<lambda>i. i + j) [0..<k]"
    by (simp add: map_add_upt add.commute)
  then show ?thesis
    unfolding band_def by (simp add: sdrop_snth comp_def add.commute)
qed

lemma freeslot_refines: "fst (freeslot m g) = freeslot_spec m g"
proof -
  let ?P = "\<lambda>s. m s = None"
  obtain r1 g1 where a1: "attempts 3 10 m g = (r1, g1)" by force
  obtain r2 g2 where a2: "attempts 64 (2 ^ 8) m g1 = (r2, g2)" by force
  obtain r3 g3 where a3: "attempts 1024 (2 ^ 16) m g2 = (r3, g3)" by force
  obtain r4 g4 where a4: "attempts 1024 (2 ^ 24) m g3 = (r4, g4)" by force
  have f1: "find ?P (band 0 3 10 g) = r1"
    using attempts_find [of 3 10 m g] a1 by simp
  have d1: "r1 = None \<Longrightarrow> g1 = sdrop 3 g"
    using attempts_rng [of 3 10 m g] a1 by simp
  have f2: "r1 = None \<Longrightarrow> find ?P (band 3 67 (2 ^ 8) g) = r2"
    using attempts_find [of 64 "2 ^ 8" m g1] a2 d1 band_shift [of 64 "2 ^ 8" 3 g] by simp
  have d2: "r1 = None \<Longrightarrow> r2 = None \<Longrightarrow> g2 = sdrop 67 g"
    using attempts_rng [of 64 "2 ^ 8" m g1] a2 d1 by simp
  have f3: "r1 = None \<Longrightarrow> r2 = None \<Longrightarrow> find ?P (band 67 1091 (2 ^ 16) g) = r3"
    using attempts_find [of 1024 "2 ^ 16" m g2] a3 d2 band_shift [of 1024 "2 ^ 16" 67 g]
    by simp
  have d3: "r1 = None \<Longrightarrow> r2 = None \<Longrightarrow> r3 = None \<Longrightarrow> g3 = sdrop 1091 g"
    using attempts_rng [of 1024 "2 ^ 16" m g2] a3 d2 by simp
  have f4: "r1 = None \<Longrightarrow> r2 = None \<Longrightarrow> r3 = None \<Longrightarrow>
      find ?P (band 1091 2115 (2 ^ 24) g) = r4"
    using attempts_find [of 1024 "2 ^ 24" m g3] a4 d3 band_shift [of 1024 "2 ^ 24" 1091 g]
    by simp
  have code: "fst (freeslot m g) =
      (case r1 of Some s \<Rightarrow> (s, True) | None \<Rightarrow>
      (case r2 of Some s \<Rightarrow> (s, True) | None \<Rightarrow>
      (case r3 of Some s \<Rightarrow> (s, True) | None \<Rightarrow>
      (case r4 of Some s \<Rightarrow> (s, True) | None \<Rightarrow> ([], False)))))"
    unfolding freeslot_def a1 a2 a3 a4 prod.case
    by (simp split: option.splits)
  have spec: "freeslot_spec m g =
      (case r1 of Some s \<Rightarrow> (s, True) | None \<Rightarrow>
      (case r2 of Some s \<Rightarrow> (s, True) | None \<Rightarrow>
      (case r3 of Some s \<Rightarrow> (s, True) | None \<Rightarrow>
      (case r4 of Some s \<Rightarrow> (s, True) | None \<Rightarrow> ([], False)))))"
    unfolding freeslot_spec_def candidates_def find_append
    using f1 f2 f3 f4
    by (cases r1; cases r2; cases r3; cases r4) simp_all
  from code spec show ?thesis by simp
qed

lemma band_range:
  assumes "s \<in> set (band lo hi n g)" and "0 < n"
  shows "\<exists>v<n. s = Itoa (int v)"
proof -
  from assms(1) obtain i where "s = Itoa (int (g !! i mod n))"
    unfolding band_def by auto
  moreover have "g !! i mod n < n"
    using assms(2) by simp
  ultimately show ?thesis by blast
qed

lemma length_band: "length (band lo hi n g) = hi - lo"
  by (simp add: band_def)

lemma candidates_range:
  assumes "s \<in> set (candidates g)"
  shows "\<exists>v<2 ^ 24. s = Itoa (int v)"
proof -
  have b: "\<And>lo hi n. s \<in> set (band lo hi n g) \<Longrightarrow> 0 < n \<Longrightarrow> n \<le> 2 ^ 24 \<Longrightarrow>
      \<exists>v<2 ^ 24. s = Itoa (int v)"
    using band_range by (meson less_le_trans)
  from assms show ?thesis
    unfolding candidates_def by (auto dest!: b)
qed

lemma freeslot_spec_ok:
  "freeslot_spec m g = (s, True) \<Longrightarrow> m s = None \<and> s \<in> set (candidates g)"
  unfolding freeslot_spec_def
  by (auto split: option.splits simp: find_Some_iff)

lemma freeslot_spec_full:
  "snd (freeslot_spec m g) = False \<longleftrightarrow> (\<forall>s\<in>set (candidates g). m s \<noteq> None)"
  unfolding freeslot_spec_def
  by (auto split: option.splits simp: find_None_iff find_Some_iff)

lemma freeslot_ok:
  "freeslot m g = ((s, True), g') \<Longrightarrow> m s = None \<and> (\<exists>v<2 ^ 24. s = Itoa (int v))"
  using freeslot_refines [of m g] freeslot_spec_ok [of m g s] candidates_range [of s g]
  by simp

text \<open>
  Claim C2. The allocator tries at most 3 codes drawn from 0..9, then at most 64 from
  0..2^8-1, then at most 1024 from 0..2^16-1, then at most 1024 from 0..2^24-1, and
  returns the first of these candidates that is not a key of the table. It reports
  failure exactly when every candidate is a key, and a code returned with success is
  not a key. (That the draws are uniform is a property of the library's generator; the
  theorem holds for every sequence of draws.)
\<close>

theorem freeslot_bands:
  "fst (freeslot m g) = freeslot_spec m g
   \<and> length (band 0 3 10 g) = 3 \<and> length (band 3 67 (2 ^ 8) g) = 64
   \<and> length (band 67 1091 (2 ^ 16) g) = 1024 \<and> length (band 1091 2115 (2 ^ 24) g) = 1024
   \<and> (\<forall>s\<in>set (band 0 3 10 g). \<exists>v<10. s = Itoa (int v))
   \<and> (\<forall>s\<in>set (band 3 67 (2 ^ 8) g). \<exists>v<2 ^ 8. s = Itoa (int v))
   \<and> (\<forall>s\<in>set (band 67 1091 (2 ^ 16) g). \<exists>v<2 ^ 16. s = Itoa (int v))
   \<and> (\<forall>s\<in>set (band 1091 2115 (2 ^ 24) g). \<exists>v<2 ^ 24. s = Itoa (int v))
   \<and> (snd (fst (freeslot m g)) \<longrightarrow> m (fst (fst (freeslot m g))) = None)
   \<and> (\<not> snd (fst (freeslot m g)) \<longleftrightarrow> (\<forall>s\<in>set (candidates g). m s \<noteq> None))"
proof -
  have r: "fst (freeslot m g) = freeslot_spec m g"
    by (rule freeslot_refines)
  have len: "length (band 0 3 10 g) = 3 \<and> length (band 3 67 (2 ^ 8) g) = 64
      \<and> length (band 67 1091 (2 ^ 16) g) = 1024 \<and> length (band 1091 2115 (2 ^ 24) g) = 1024"
    by (simp add: length_band)
  have b1: "\<forall>s\<in>set (band 0 3 10 g). \<exists>v<10. s = Itoa (int v)"
    using band_range [of _ 0 3 10 g] by simp
  have b2: "\<forall>s\<in>set (band 3 67 (2 ^ 8) g). \<exists>v<2 ^ 8. s = Itoa (int v)"
    using band_range [of _ 3 67 "2 ^ 8" g] by simp
  have b3: "\<forall>s\<in>set (band 67 1091 (2 ^ 16) g). \<exists>v<2 ^ 16. s = Itoa (int v)"
    using band_range [of _ 67 1091 "2 ^ 16" g] by simp
  have b4: "\<forall>s\<in>set (band 1091 2115 (2 ^ 24) g). \<exists>v<2 ^ 24. s = Itoa (int v)"
    using band_range [of _ 1091 2115 "2 ^ 24" g] by simp
  have ok: "snd (fst (freeslot m g)) \<longrightarrow> m (fst (fst (freeslot m g))) = None"
    using freeslot_spec_ok [of m g "fst (freeslot_spec m g)"] r
      prod.collapse [of "freeslot_spec m g"]
    by (metis (full_types))
  have full: "\<not> snd (fst (freeslot m g)) \<longleftrightarrow> (\<forall>s\<in>set (candidates g). m s \<noteq> None)"
    using freeslot_spec_full [of m g] r by simp
  from r len b1 b2 b3 b4 ok full show ?thesis by blast
qed

theorem freeslot_bands_witness:
  "freeslot [''3'' \<mapsto> (0::nat)] (3 ## 5 ## sconst 0) = ((''5'', True), sconst 0)
   \<and> [''3'' \<mapsto> (0::nat)] ''5'' = None"
proof -
  have "attempts 3 10 [''3'' \<mapsto> (0::nat)] (3 ## 5 ## sconst 0) = (Some ''5'', sconst 0)"
    by (simp add: attempts_numeral Intn_def Itoa_def formatBits.simps digits_def)
  then have e:
    "freeslot [''3'' \<mapsto> (0::nat)] (3 ## 5 ## sconst 0) = ((''5'', True), sconst 0)"
    unfolding freeslot_def by simp
  have "snd (fst (freeslot [''3'' \<mapsto> (0::nat)] (3 ## 5 ## sconst 0))) \<longrightarrow>
      [''3'' \<mapsto> (0::nat)] (fst (fst (freeslot [''3'' \<mapsto> (0::nat)] (3 ## 5 ## sconst 0)))) = None"
    using freeslot_bands [of "[''3'' \<mapsto> (0::nat)]" "3 ## 5 ## sconst 0"] by blast
  with e show ?thesis by simp
qed

section \<open>Runs\<close>

lemma run_append: "run (es @ es') s = run es' (run es s)"
  by (induction es arbitrary: s) auto

lemma run_snoc: "run (es @ [e]) s = step e (run es s)"
  by (simp add: run_append)

lemma run_invariant:
  assumes "P s" and "\<And>e s. P s \<Longrightarrow> P (step e s)"
  shows "P (run es s)"
  using assms(1)
  by (induction es arbitrary: s) (auto intro: assms(2))

section \<open>What a handoff changes\<close>

lemma handoff_frame:
  "slots (handoff a b s) = slots s" "lock (handoff a b s) = lock s"
  "nextchan (handoff a b s) = nextchan s" "rng (handoff a b s) = rng s"
  "slotkey (handoff a b s) = slotkey s" "sent (handoff a b s) = sent s"
  "looping (handoff a b s) = looping s" "ctxdone (handoff a b s) = ctxdone s"
  by (simp_all add: handoff_def split: option.splits)

lemma handoff_pc:
  assumes "pc (handoff a b s) c = p"
  shows "pc s c = p
    \<or> (c = a \<and> p = after_send (pc s a) \<and> sending (pc s a) \<noteq> None)
    \<or> (c = b \<and> p = after_recv (pc s b) \<and> receiving (pc s b) \<noteq> None)"
  using assms by (auto simp: handoff_def split: option.splits if_splits)

lemma sending_cases: "sending p = Some sc \<longleftrightarrow> p = L130 sc \<or> p = L175 sc"
  by (cases p) auto

lemma receiving_cases: "receiving p = Some sc \<longleftrightarrow> p = L145 sc \<or> p = L165 sc"
  by (cases p) auto

lemma after_send_val:
  "after_send p = q \<Longrightarrow> q = Returned \<or> (\<exists>sc. p = L130 sc \<and> q = L145 sc)"
  by (cases p) auto

lemma after_recv_val:
  "after_recv p = q \<Longrightarrow> q = Returned \<or> (\<exists>sc. p = L165 sc \<and> q = L175 sc)"
  by (cases p) auto

lemma handoff_pc_val:
  assumes "pc (handoff a b s) c = p"
  shows "pc s c = p \<or> p = Returned
    \<or> (\<exists>sc. c = a \<and> pc s a = L130 sc \<and> p = L145 sc)
    \<or> (\<exists>sc. c = b \<and> pc s b = L165 sc \<and> p = L175 sc)"
  using handoff_pc [OF assms] after_send_val [of "pc s a" p] after_recv_val [of "pc s b" p]
  by auto

section \<open>The mutex\<close>

lemma lock_inv_init: "lock_inv (init g)"
  by (simp add: lock_inv_def init_def)

lemma lock_inv_go:
  assumes "lock_inv s"
  shows "lock_inv (go c s)"
proof -
  have h: "\<And>c'. crit (pc s c') = (lock s = Some c')"
    using assms by (simp add: lock_inv_def)
  define p where "p = pc s c"
  have hc: "crit p = (lock s = Some c)"
    using h [of c] by (simp add: p_def)
  show ?thesis
    unfolding lock_inv_def go_def p_def [symmetric]
    using h hc
    by (cases p) (auto simp: goto_def emit_def split: prod.splits option.splits)
qed

lemma lock_inv_handoff:
  assumes "lock_inv s"
  shows "lock_inv (handoff a b s)"
proof -
  have h: "\<And>c'. crit (pc s c') = (lock s = Some c')"
    using assms by (simp add: lock_inv_def)
  define p where "p = pc s a"
  define q where "q = pc s b"
  have hp: "crit p = (lock s = Some a)" and hq: "crit q = (lock s = Some b)"
    using h [of a] h [of b] by (simp_all add: p_def q_def)
  show ?thesis
    unfolding lock_inv_def handoff_def p_def [symmetric] q_def [symmetric]
    using h hp hq
    by (cases p; cases q) auto
qed

lemma lock_inv_step:
  assumes "lock_inv s"
  shows "lock_inv (step e s)"
proof (cases e)
  case (Upgrade c key)
  have "lock s \<noteq> Some c" if "pc s c = Idle"
  proof -
    from that have "\<not> crit (pc s c)" by simp
    then show ?thesis using assms by (simp add: lock_inv_def)
  qed
  then show ?thesis
    using assms Upgrade by (auto simp: lock_inv_def upgrade_def)
next
  case (Go c)
  then show ?thesis
    using assms by (simp add: lock_inv_go)
next
  case (WriteCode c ok)
  have h: "\<And>c'. crit (pc s c') = (lock s = Some c')"
    using assms by (simp add: lock_inv_def)
  define p where "p = pc s c"
  have hc: "crit p = (lock s = Some c)"
    using h [of c] by (simp add: p_def)
  show ?thesis
    unfolding WriteCode step.simps lock_inv_def write_code_def p_def [symmetric]
    using h hc
    by (cases p) (auto simp: goto_def emit_def)
next
  case (Expire c)
  then show ?thesis
    using assms by (auto simp: lock_inv_def expire_def)
next
  case (CtxDone c)
  have h: "\<And>c'. crit (pc s c') = (lock s = Some c')"
    using assms by (simp add: lock_inv_def)
  define p where "p = pc s c"
  have hc: "crit p = (lock s = Some c)"
    using h [of c] by (simp add: p_def)
  show ?thesis
    unfolding CtxDone step.simps lock_inv_def ctx_done_def p_def [symmetric]
    using h hc
    by (cases p) (auto simp: goto_def emit_def)
next
  case (Handoff a b)
  then show ?thesis
    using assms by (simp add: lock_inv_handoff)
next
  case (Read c r wok)
  then show ?thesis
    using assms
    by (auto simp: lock_inv_def read_loop_def loop_return_def emit_def split: option.splits)
qed

lemma lock_inv_run: "lock_inv s \<Longrightarrow> lock_inv (run es s)"
  by (rule run_invariant) (auto intro: lock_inv_step)

lemma lock_inv_reachable: "lock_inv (run es (init g))"
  by (simp add: lock_inv_run lock_inv_init)

section \<open>The slot table\<close>

lemma table_inv_init: "table_inv (init g)"
  by (simp add: table_inv_def init_def)

lemma crit_exclusive:
  assumes "lock_inv s" and "crit (pc s c)" and "c' \<noteq> c"
  shows "\<not> crit (pc s c')"
  using assms by (auto simp: lock_inv_def)

lemma table_inv_go:
  assumes "lock_inv s" and "table_inv s"
  shows "table_inv (go c s)"
proof -
  define p where "p = pc s c"
  have fresh: "\<And>k ch. slots s k = Some ch \<Longrightarrow> ch < nextchan s"
    and inj: "\<And>k k' ch. slots s k = Some ch \<Longrightarrow> slots s k' = Some ch \<Longrightarrow> k = k'"
    and look: "\<And>c sc. pc s c = L162 sc \<Longrightarrow> slots s (slotkey s c) = Some sc"
    using assms(2) unfolding table_inv_def by blast+
  have other: "\<And>c' sc. crit p \<Longrightarrow> c' \<noteq> c \<Longrightarrow> pc s c' \<noteq> L162 sc"
  proof
    fix c' sc
    assume "crit p" and "c' \<noteq> c" and "pc s c' = L162 sc"
    then show False
      using crit_exclusive [OF assms(1), of c c'] by (simp add: p_def)
  qed
  have fresh': "\<And>k. slots s k \<noteq> Some (nextchan s)"
    using fresh by fastforce
  show ?thesis
    unfolding table_inv_def go_def p_def [symmetric]
    using fresh inj look other fresh'
    by (cases p)
      (auto simp: goto_def emit_def split: prod.splits option.splits if_splits
        intro: less_SucI)
qed


lemma table_inv_step:
  assumes "lock_inv s" and "table_inv s"
  shows "table_inv (step e s)"
proof (cases e)
  case (Upgrade c key)
  then show ?thesis
    using assms(2) by (auto simp: table_inv_def upgrade_def)
next
  case (Go c)
  then show ?thesis
    using assms by (simp add: table_inv_go)
next
  case (WriteCode c ok)
  then show ?thesis
    using assms(2)
    by (auto simp: table_inv_def write_code_def goto_def emit_def split: gpc.splits)
next
  case (Expire c)
  then show ?thesis
    using assms(2) by (auto simp: table_inv_def expire_def)
next
  case (CtxDone c)
  then show ?thesis
    using assms(2)
    by (auto simp: table_inv_def ctx_done_def goto_def emit_def split: gpc.splits)
next
  case (Handoff a b)
  have "pc s c = L162 sc" if "pc (handoff a b s) c = L162 sc" for c sc
    using handoff_pc_val [OF that] by auto
  then show ?thesis
    using assms(2) Handoff by (simp add: table_inv_def handoff_frame)
next
  case (Read c r wok)
  then show ?thesis
    using assms(2)
    by (auto simp: table_inv_def read_loop_def loop_return_def emit_def split: option.splits)
qed

lemma invs_run:
  "lock_inv s \<and> table_inv s \<Longrightarrow> lock_inv (run es s) \<and> table_inv (run es s)"
  by (rule run_invariant) (auto intro: lock_inv_step table_inv_step)

lemma table_inv_reachable: "table_inv (run es (init g))"
  using invs_run [of "init g" es] by (simp add: lock_inv_init table_inv_init)

section \<open>Codes in the table are canonical\<close>

lemma digit_cases:
  assumes "d < (10::nat)"
  shows "d = 0 \<or> d = 1 \<or> d = 2 \<or> d = 3 \<or> d = 4 \<or> d = 5 \<or> d = 6 \<or> d = 7 \<or> d = 8 \<or> d = 9"
  using assms by arith

lemma digitval_nth: "d < 10 \<Longrightarrow> digitval (digits ! d) = d"
  using digit_cases [of d] by (auto simp: digitval_def digits_def)

lemma digit_in_digits: "d < 10 \<Longrightarrow> digits ! d \<in> set digits"
  using digit_cases [of d] by (auto simp: digits_def)

lemma digitval_less: "c \<in> set digits \<Longrightarrow> digitval c < 10 \<and> digits ! digitval c = c"
  by (auto simp: digitval_def digits_def)

lemma decval_snoc: "decval (xs @ [c]) = 10 * decval xs + digitval c"
  by (simp add: decval_def)

lemma formatBits_props:
  "decval (formatBits n) = n \<and> list_all (\<lambda>c. c \<in> set digits) (formatBits n)
   \<and> formatBits n \<noteq> [] \<and> (hd (formatBits n) = CHR ''0'' \<longrightarrow> n = 0)"
proof (induction n rule: formatBits.induct)
  case (1 u)
  have "u < 10 \<or> \<not> u < 10" by simp
  then show ?case
  proof
    assume True: "u < 10"
    have f: "formatBits u = [digits ! u]"
      using True by (simp add: formatBits.simps)
    have "digits ! u = CHR ''0'' \<Longrightarrow> u = 0"
      using digitval_nth [OF True] by (auto simp: digitval_def digits_def)
    then show ?thesis
      using True f digitval_nth [of u] digit_in_digits [of u]
      by (simp add: decval_def)
  next
    assume False: "\<not> u < 10"
    have f: "formatBits u = formatBits (u div 10) @ [digits ! (u mod 10)]"
      using False by (subst formatBits.simps) simp
    have ih: "decval (formatBits (u div 10)) = u div 10"
      "list_all (\<lambda>c. c \<in> set digits) (formatBits (u div 10))"
      "formatBits (u div 10) \<noteq> []"
      "hd (formatBits (u div 10)) = CHR ''0'' \<longrightarrow> u div 10 = 0"
      using 1 [OF False] by simp_all
    have m: "u mod 10 < 10" by simp
    have "u div 10 \<noteq> 0"
      using False by simp
    then have "hd (formatBits u) \<noteq> CHR ''0''"
      using ih f by simp
    then show ?thesis
      using f ih digitval_nth [OF m] digit_in_digits [OF m]
      by (simp add: decval_snoc)
  qed
qed

lemma canonical_Itoa:
  assumes "n < 2 ^ 24"
  shows "canonical (Itoa (int n))"
proof -
  have i: "Itoa (int n) = formatBits n"
    by (simp add: Itoa_def)
  have z: "formatBits 0 = ''0''"
    by (simp add: formatBits.simps digits_def)
  show ?thesis
    unfolding canonical_def i
    using formatBits_props [of n] assms z by auto
qed

lemma canonical_is_formatBits:
  assumes "xs \<noteq> []" and "list_all (\<lambda>c. c \<in> set digits) xs" and "hd xs \<noteq> CHR ''0''"
  shows "formatBits (decval xs) = xs \<and> 0 < decval xs"
  using assms
proof (induction xs rule: rev_induct)
  case Nil
  then show ?case by simp
next
  case (snoc c xs)
  have c: "c \<in> set digits"
    using snoc.prems(2) by simp
  have dv: "digitval c < 10" and dn: "digits ! digitval c = c"
    using digitval_less [OF c] by simp_all
  show ?case
  proof (cases xs)
    case Nil
    have "digitval c \<noteq> 0"
    proof
      assume "digitval c = 0"
      then have "c = CHR ''0''"
        using dn by (simp add: digits_def)
      then show False
        using snoc.prems(3) Nil by simp
    qed
    then show ?thesis
      using Nil dv dn by (simp add: decval_def formatBits.simps)
  next
    case (Cons y ys)
    have "formatBits (decval xs) = xs \<and> 0 < decval xs"
      using snoc.IH snoc.prems Cons by simp
    then have ih: "formatBits (decval xs) = xs" and pos: "0 < decval xs"
      by simp_all
    have big: "\<not> 10 * decval xs + digitval c < 10"
      using pos by simp
    have "formatBits (10 * decval xs + digitval c) = xs @ [c]"
      using big ih dv dn by (subst formatBits.simps) simp
    then show ?thesis
      using pos by (simp add: decval_snoc)
  qed
qed

lemma canonical_iff: "canonical s \<longleftrightarrow> (\<exists>n<2 ^ 24. s = Itoa (int n))"
proof
  assume c: "canonical s"
  have "hd s = CHR ''0'' \<or> hd s \<noteq> CHR ''0''" by simp
  then have "s = Itoa (int (decval s))"
  proof
    assume "hd s = CHR ''0''"
    then have "s = ''0''"
      using c by (simp add: canonical_def)
    then show ?thesis
      by (simp add: Itoa_def decval_def digitval_def digits_def formatBits.simps)
  next
    assume "hd s \<noteq> CHR ''0''"
    then show ?thesis
      using c canonical_is_formatBits [of s]
      by (simp add: canonical_def Itoa_def)
  qed
  then show "\<exists>n<2 ^ 24. s = Itoa (int n)"
    using c by (auto simp: canonical_def)
next
  assume "\<exists>n<2 ^ 24. s = Itoa (int n)"
  then show "canonical s"
    using canonical_Itoa by auto
qed

lemma key_inv_init: "key_inv (init g)"
  by (simp add: key_inv_def init_def)

lemma freeslot_canonical: "freeslot m g = ((s, True), g') \<Longrightarrow> canonical s"
  using freeslot_ok [of m g s g'] canonical_iff by blast

lemma key_inv_go:
  assumes "key_inv s"
  shows "key_inv (go c s)"
proof -
  define p where "p = pc s c"
  have k1: "\<And>k ch. slots s k = Some ch \<Longrightarrow> canonical k"
    and k2: "\<And>c. pc s c = L121 \<Longrightarrow> canonical (slotkey s c)"
    and k3: "\<And>c sc. pc s c = L162 sc \<or> pc s c = L163 sc \<or> pc s c = L165 sc
        \<or> pc s c = L175 sc \<Longrightarrow> canonical (slotkey s c)"
    using assms unfolding key_inv_def by blast+
  have k2': "p = L121 \<Longrightarrow> canonical (slotkey s c)"
    using k2 [of c] by (simp add: p_def)
  have k3': "\<And>sc. p = L162 sc \<or> p = L163 sc \<Longrightarrow> canonical (slotkey s c)"
    using k3 [of c] by (auto simp: p_def)
  have fs: "\<And>newslot g'. freeslot (slots s) (rng s) = ((newslot, True), g') \<Longrightarrow>
      canonical newslot"
    by (rule freeslot_canonical)
  show ?thesis
    unfolding key_inv_def go_def p_def [symmetric]
    using k1 k2 k3 k2' k3' fs
    by (cases p)
      (auto simp: goto_def emit_def split: prod.splits option.splits if_splits)
qed

lemma key_inv_step:
  assumes "key_inv s"
  shows "key_inv (step e s)"
proof (cases e)
  case (Upgrade c key)
  then show ?thesis
    using assms by (auto simp: key_inv_def upgrade_def)
next
  case (Go c)
  then show ?thesis
    using assms by (simp add: key_inv_go)
next
  case (WriteCode c ok)
  then show ?thesis
    using assms
    by (auto simp: key_inv_def write_code_def goto_def emit_def split: gpc.splits)
next
  case (Expire c)
  then show ?thesis
    using assms by (auto simp: key_inv_def expire_def)
next
  case (CtxDone c)
  then show ?thesis
    using assms
    by (auto simp: key_inv_def ctx_done_def goto_def emit_def split: gpc.splits)
next
  case (Handoff a b)
  have "pc s c = L121" if "pc (handoff a b s) c = L121" for c
    using handoff_pc_val [OF that] by auto
  moreover have "pc s c = L162 sc \<or> pc s c = L163 sc \<or> pc s c = L165 sc \<or> pc s c = L175 sc"
    if "pc (handoff a b s) c = L162 sc \<or> pc (handoff a b s) c = L163 sc
      \<or> pc (handoff a b s) c = L165 sc \<or> pc (handoff a b s) c = L175 sc" for c sc
    using that handoff_pc_val [of a b s c] by auto
  ultimately show ?thesis
    using assms unfolding Handoff key_inv_def step.simps handoff_frame
    by blast
next
  case (Read c r wok)
  then show ?thesis
    using assms
    by (auto simp: key_inv_def read_loop_def loop_return_def emit_def split: option.splits)
qed

lemma key_inv_reachable: "key_inv (run es (init g))"
  by (rule run_invariant) (auto intro: key_inv_init key_inv_step)

section \<open>Close frames\<close>

lemma close_inv_init: "close_inv (init g)"
  by (simp add: close_inv_def init_def)

lemma close_inv_step:
  assumes "close_inv s"
  shows "close_inv (step e s)"
proof (cases e)
  case (Upgrade c key)
  then show ?thesis
    using assms by (auto simp: close_inv_def upgrade_def)
next
  case (Go c)
  then show ?thesis
    using assms
    by (auto simp: close_inv_def go_def goto_def emit_def CloseNoSuchSlot_def
        CloseSlotTimedOut_def CloseNoMoreSlots_def
        split: gpc.splits prod.splits option.splits if_splits)
next
  case (WriteCode c ok)
  then show ?thesis
    using assms
    by (auto simp: close_inv_def write_code_def goto_def emit_def split: gpc.splits if_splits)
next
  case (Expire c)
  then show ?thesis
    using assms by (auto simp: close_inv_def expire_def)
next
  case (CtxDone c)
  then show ?thesis
    using assms
    by (auto simp: close_inv_def ctx_done_def goto_def emit_def CloseSlotTimedOut_def
        split: gpc.splits if_splits)
next
  case (Handoff a b)
  then show ?thesis
    using assms by (simp add: close_inv_def handoff_frame)
next
  case (Read c r wok)
  then show ?thesis
    using assms
    by (auto simp: close_inv_def read_loop_def loop_return_def emit_def
        split: option.splits if_splits)
qed

lemma close_inv_reachable: "close_inv (run es (init g))"
  by (rule run_invariant) (auto intro: close_inv_init close_inv_step)

section \<open>Paths of a goroutine\<close>

lemma join_missing:
  assumes "pc s c = L151" and "slots s (slotkey s c) = None"
  shows "run [Go c, Go c, Go c] s =
    s\<lparr>lock := None, pc := (pc s)(c := Returned),
      sent := (sent s)(c := sent s c @ [CloseFrame CloseNoSuchSlot ''no such slot'', ConnClosed])\<rparr>"
  using assms by (simp add: go_def goto_def emit_def)

lemma alloc_exhausted:
  assumes "pc s c = L109" and "freeslot (slots s) (rng s) = ((x, False), g')"
  shows "run [Go c, Go c, Go c] s =
    s\<lparr>lock := None, rng := g', pc := (pc s)(c := Returned),
      sent := (sent s)(c := sent s c @
        [CloseFrame CloseNoMoreSlots ''cannot allocate slots'', ConnClosed])\<rparr>"
  using assms by (simp add: go_def goto_def emit_def)

lemma book_timeout:
  assumes "pc s c = L130 sc" and "ctxdone s c" and "lock s = None"
  shows "run [CtxDone c, Go c, Go c, Go c, Go c] s =
    s\<lparr>slots := (slots s)(slotkey s c := None), lock := None, pc := (pc s)(c := Returned),
      sent := (sent s)(c := sent s c @ [CloseFrame CloseSlotTimedOut ''timed out'', ConnClosed])\<rparr>"
  using assms by (simp add: ctx_done_def go_def goto_def emit_def)

lemma book_timeout_deleted:
  assumes "pc s c = L130 sc" and "ctxdone s c" and "lock s = None"
  shows "run [CtxDone c, Go c, Go c] s =
    s\<lparr>slots := (slots s)(slotkey s c := None), lock := Some c, pc := (pc s)(c := L135)\<rparr>"
  using assms by (simp add: ctx_done_def go_def goto_def emit_def)

lemma join_timeout:
  assumes "pc s c = L165 sc" and "ctxdone s c"
  shows "step (CtxDone c) s =
    s\<lparr>pc := (pc s)(c := L175 sc),
      sent := (sent s)(c := sent s c @ [CloseFrame CloseSlotTimedOut ''timed out'', ConnClosed])\<rparr>"
  using assms by (simp add: ctx_done_def goto_def emit_def)

lemma join_attempt_missing:
  assumes "pc s c = L150" and "lock s = None" and "slots s (slotkey s c) = None"
  shows "run [Go c, Go c, Go c, Go c] s =
    s\<lparr>lock := None, pc := (pc s)(c := Returned),
      sent := (sent s)(c := sent s c @ [CloseFrame CloseNoSuchSlot ''no such slot'', ConnClosed])\<rparr>"
  using assms by (simp add: go_def goto_def emit_def)

section \<open>A join takes the entry atomically\<close>

lemma go_other:
  assumes "c' \<noteq> c"
  shows "pc (go c s) c' = pc s c'" and "slotkey (go c s) c' = slotkey s c'"
    and "sent (go c s) c' = sent s c'"
proof -
  define p where "p = pc s c"
  show "pc (go c s) c' = pc s c'"
    unfolding go_def p_def [symmetric] using assms
    by (cases p) (simp_all add: goto_def emit_def split: prod.splits option.splits)
  show "slotkey (go c s) c' = slotkey s c'"
    unfolding go_def p_def [symmetric] using assms
    by (cases p) (simp_all add: goto_def emit_def split: prod.splits option.splits)
  show "sent (go c s) c' = sent s c'"
    unfolding go_def p_def [symmetric] using assms
    by (cases p) (simp_all add: goto_def emit_def split: prod.splits option.splits)
qed

lemma go_nextchan: "nextchan s \<le> nextchan (go c s)"
proof -
  define p where "p = pc s c"
  show ?thesis
    unfolding go_def p_def [symmetric]
    by (cases p) (simp_all add: goto_def emit_def split: prod.splits option.splits)
qed

lemma go_slots_waiting:
  assumes "\<not> crit (pc s c)"
  shows "slots (go c s) = slots s"
proof -
  define p where "p = pc s c"
  show ?thesis
    unfolding go_def p_def [symmetric] using assms [folded p_def]
    by (cases p) (simp_all add: goto_def emit_def split: prod.splits option.splits)
qed

lemma go_slots_entry:
  assumes "slots (go c s) k = Some ch"
  shows "slots s k = Some ch \<or> ch = nextchan s"
proof -
  define p where "p = pc s c"
  show ?thesis
    using assms unfolding go_def p_def [symmetric]
    by (cases p)
      (simp_all add: goto_def emit_def split: prod.splits option.splits if_splits)
qed

lemma go_joiner:
  "pc s c = L162 sc \<Longrightarrow>
     go c s = s\<lparr>slots := (slots s)(slotkey s c := None), pc := (pc s)(c := L163 sc)\<rparr>"
  "pc s c = L163 sc \<Longrightarrow> go c s = s\<lparr>lock := None, pc := (pc s)(c := L165 sc)\<rparr>"
  "pc s c = L165 sc \<Longrightarrow> go c s = s"
  "pc s c = L175 sc \<Longrightarrow> go c s = s"
  "pc s c = Returned \<Longrightarrow> go c s = s"
  by (simp_all add: go_def goto_def)

lemma after_take_go:
  assumes l: "lock_inv s" and t: "table_inv s" and a: "after_take c1 sc K tbl n s"
    and k: "tbl K = Some sc"
  shows "after_take c1 sc K tbl n (go c s)"
proof -
  have n: "n \<le> nextchan s"
    using a by (simp add: after_take_def)
  have n': "n \<le> nextchan (go c s)"
    using n go_nextchan [of s c] by simp
  have "c = c1 \<or> c \<noteq> c1" by simp
  then show ?thesis
  proof
    assume c: "c = c1"
    have inj: "k' = K" if "slots s = tbl" and "tbl k' = Some sc" for k'
      using t k that unfolding table_inv_def by metis
    from a consider
        (before) "pc s c1 = L162 sc" "slots s = tbl" "slotkey s c1 = K"
      | (unlock) "pc s c1 = L163 sc"
          "\<forall>k ch. slots s k = Some ch \<longrightarrow> tbl k = Some ch \<and> ch \<noteq> sc \<or> n \<le> ch"
      | (rest) "pc s c1 = L165 sc \<or> pc s c1 = L175 sc \<or> pc s c1 = Returned"
      unfolding after_take_def by blast
    then show ?thesis
    proof cases
      case before
      have "tbl k' = Some ch \<and> ch \<noteq> sc" if "k' \<noteq> K" and "tbl k' = Some ch" for k' ch
        using that inj [OF before(2), of k'] by auto
      then show ?thesis
        unfolding c after_take_def go_joiner(1) [OF before(1)]
        using n before by auto
    next
      case unlock
      then show ?thesis
        unfolding c after_take_def go_joiner(2) [OF unlock(1)]
        using n by auto
    next
      case rest
      then have "go c1 s = s"
        using go_joiner(3-5) by blast
      then show ?thesis
        using a c by simp
    qed
  next
    assume c: "c \<noteq> c1"
    note same = go_other(1,2) [OF c [symmetric], of s]
    from a consider
        (before) "pc s c1 = L162 sc" "slots s = tbl" "slotkey s c1 = K"
      | (after) "pc s c1 = L163 sc \<or> pc s c1 = L165 sc \<or> pc s c1 = L175 sc
          \<or> pc s c1 = Returned"
          "\<forall>k ch. slots s k = Some ch \<longrightarrow> tbl k = Some ch \<and> ch \<noteq> sc \<or> n \<le> ch"
      unfolding after_take_def by blast
    then show ?thesis
    proof cases
      case before
      have "crit (pc s c1)"
        using before(1) by simp
      then have "\<not> crit (pc s c)"
        using crit_exclusive [OF l _ c] by blast
      then have "slots (go c s) = slots s"
        by (rule go_slots_waiting)
      then show ?thesis
        unfolding after_take_def same using n' before by simp
    next
      case after
      have "tbl k' = Some ch \<and> ch \<noteq> sc \<or> n \<le> ch" if "slots (go c s) k' = Some ch" for k' ch
        using go_slots_entry [OF that] after(2) n by auto
      then show ?thesis
        unfolding after_take_def same using n' after(1) by blast
    qed
  qed
qed

lemma after_take_step:
  assumes l: "lock_inv s" and t: "table_inv s" and a: "after_take c1 sc K tbl n s"
    and k: "tbl K = Some sc"
  shows "after_take c1 sc K tbl n (step e s)"
proof (cases e)
  case (Upgrade c key)
  have "pc s c1 \<noteq> Idle"
    using a unfolding after_take_def by auto
  then show ?thesis
    using a unfolding Upgrade step.simps after_take_def upgrade_def by auto
next
  case (Go c)
  then show ?thesis
    using after_take_go [OF l t a k] by simp
next
  case (WriteCode c ok)
  define p where "p = pc s c"
  have pp: "c = c1 \<Longrightarrow> pc s c1 = p"
    by (simp add: p_def)
  show ?thesis
    unfolding WriteCode step.simps after_take_def write_code_def p_def [symmetric]
    using a [unfolded after_take_def] pp
    by (cases p) (auto simp: goto_def emit_def)
next
  case (Expire c)
  then show ?thesis
    using a unfolding after_take_def by (auto simp: expire_def)
next
  case (CtxDone c)
  define p where "p = pc s c"
  have pp: "c = c1 \<Longrightarrow> pc s c1 = p"
    by (simp add: p_def)
  show ?thesis
    unfolding CtxDone step.simps after_take_def ctx_done_def p_def [symmetric]
    using a [unfolded after_take_def] pp
    by (cases p) (auto simp: goto_def emit_def)
next
  case (Handoff a' b')
  define q where "q = pc (handoff a' b' s) c1"
  have q: "pc s c1 = q
      \<or> (q = after_send (pc s c1) \<and> sending (pc s c1) \<noteq> None)
      \<or> (q = after_recv (pc s c1) \<and> receiving (pc s c1) \<noteq> None)"
    using handoff_pc [of a' b' s c1 q] q_def by auto
  have "pc s c1 = L162 sc \<Longrightarrow> q = L162 sc"
    using q by auto
  moreover have "pc s c1 = L163 sc \<or> pc s c1 = L165 sc \<or> pc s c1 = L175 sc
      \<or> pc s c1 = Returned \<Longrightarrow>
    q = L163 sc \<or> q = L165 sc \<or> q = L175 sc \<or> q = Returned"
    using q by auto
  ultimately show ?thesis
    using a unfolding Handoff step.simps after_take_def handoff_frame q_def [symmetric]
    by blast
next
  case (Read c r wok)
  then show ?thesis
    using a unfolding after_take_def
    by (auto simp: read_loop_def loop_return_def emit_def split: option.splits)
qed

lemma after_take_run:
  assumes "lock_inv s" and "table_inv s" and "after_take c1 sc K tbl n s"
    and "tbl K = Some sc"
  shows "after_take c1 sc K tbl n (run es s)"
proof -
  have "lock_inv (run es s) \<and> table_inv (run es s) \<and> after_take c1 sc K tbl n (run es s)"
    using assms(1-3)
  proof (induction es arbitrary: s)
    case Nil
    then show ?case by simp
  next
    case (Cons e es)
    show ?case
      using Cons.IH [of "step e s"] Cons.prems assms(4)
      by (simp add: lock_inv_step table_inv_step after_take_step)
  qed
  then show ?thesis by simp
qed

section \<open>Who holds a channel\<close>

lemma chan_inv_init: "chan_inv (init g)"
  by (simp add: chan_inv_def init_def)

lemma chan_inv_go:
  assumes l: "lock_inv s" and t: "table_inv s" and i: "chan_inv s"
  shows "chan_inv (go c s)"
proof -
  define p where "p = pc s c"
  have b1: "\<And>c sc. bholds (pc s c) = Some sc \<Longrightarrow> sc < nextchan s"
    and b2: "\<And>c c' sc. bholds (pc s c) = Some sc \<Longrightarrow> bholds (pc s c') = Some sc \<Longrightarrow> c = c'"
    and b3: "\<And>c sc k. bholds (pc s c) = Some sc \<Longrightarrow> slots s k = Some sc \<Longrightarrow> k = slotkey s c"
    and j1: "\<And>c sc. jholds (pc s c) = Some sc \<Longrightarrow> sc < nextchan s"
    and j2: "\<And>c sc k. jholds (pc s c) = Some sc \<Longrightarrow> pc s c \<noteq> L162 sc \<Longrightarrow> slots s k \<noteq> Some sc"
    using i unfolding chan_inv_def by blast+
  have fresh: "\<And>k ch. slots s k = Some ch \<Longrightarrow> ch < nextchan s"
    and inj: "\<And>k k' ch. slots s k = Some ch \<Longrightarrow> slots s k' = Some ch \<Longrightarrow> k = k'"
    and look: "\<And>c sc. pc s c = L162 sc \<Longrightarrow> slots s (slotkey s c) = Some sc"
    using t unfolding table_inv_def by blast+
  have pb: "\<And>sc. bholds p = Some sc \<Longrightarrow> sc < nextchan s"
    and pj: "\<And>sc. jholds p = Some sc \<Longrightarrow> sc < nextchan s"
    using b1 [of c] j1 [of c] by (simp_all add: p_def)
  have nb: "\<And>c'. bholds (pc s c') \<noteq> Some (nextchan s)"
    and nj: "\<And>c'. jholds (pc s c') \<noteq> Some (nextchan s)"
    and nt: "\<And>k. slots s k \<noteq> Some (nextchan s)"
    using b1 j1 fresh by fastforce+
  have pb2: "\<And>c' sc. bholds p = Some sc \<Longrightarrow> bholds (pc s c') = Some sc \<Longrightarrow> c' = c"
    using b2 [of c] by (simp add: p_def)
  have pb3: "\<And>sc k. bholds p = Some sc \<Longrightarrow> slots s k = Some sc \<Longrightarrow> k = slotkey s c"
    using b3 [of c] by (simp add: p_def)
  have pj2: "\<And>sc k. jholds p = Some sc \<Longrightarrow> p \<noteq> L162 sc \<Longrightarrow> slots s k \<noteq> Some sc"
    using j2 [of c] by (simp add: p_def)
  have plook: "\<And>sc. p = L162 sc \<Longrightarrow> slots s (slotkey s c) = Some sc"
    using look [of c] by (simp add: p_def)
  have c1: "\<forall>c' sc. bholds (pc (go c s) c') = Some sc \<longrightarrow> sc < nextchan (go c s)"
    unfolding go_def p_def [symmetric]
    using b1 pb
    by (cases p)
      (auto simp: goto_def emit_def split: prod.splits option.splits if_splits
        intro: less_SucI)
  have c2: "\<forall>c' c'' sc. bholds (pc (go c s) c') = Some sc \<longrightarrow>
      bholds (pc (go c s) c'') = Some sc \<longrightarrow> c' = c''"
    unfolding go_def p_def [symmetric]
    using b2 pb2 nb
    by (cases p)
      (auto simp: goto_def emit_def split: prod.splits option.splits if_splits)
  have c3: "\<forall>c' sc k. bholds (pc (go c s) c') = Some sc \<longrightarrow>
      slots (go c s) k = Some sc \<longrightarrow> k = slotkey (go c s) c'"
    unfolding go_def p_def [symmetric]
    using b3 pb3 nb nt
    by (cases p)
      (auto simp: goto_def emit_def split: prod.splits option.splits if_splits)
  have c4: "\<forall>c' sc. jholds (pc (go c s) c') = Some sc \<longrightarrow> sc < nextchan (go c s)"
    unfolding go_def p_def [symmetric]
    using j1 pj fresh
    by (cases p)
      (auto simp: goto_def emit_def split: prod.splits option.splits if_splits
        intro: less_SucI)
  have c5: "\<forall>c' sc k. jholds (pc (go c s) c') = Some sc \<longrightarrow>
      pc (go c s) c' \<noteq> L162 sc \<longrightarrow> slots (go c s) k \<noteq> Some sc"
    unfolding go_def p_def [symmetric]
    using j2 pj2 nj plook inj
    by (cases p)
      (auto simp: goto_def emit_def split: prod.splits option.splits if_splits)
  from c1 c2 c3 c4 c5 show ?thesis
    unfolding chan_inv_def by blast
qed

lemma handoff_bholds:
  assumes "bholds (pc (handoff a b s) x) = Some sc"
  shows "bholds (pc s x) = Some sc"
  using handoff_pc_val [of a b s x "pc (handoff a b s) x"] assms by auto

lemma handoff_jholds:
  assumes "jholds (pc (handoff a b s) x) = Some sc"
  shows "jholds (pc s x) = Some sc"
    and "pc (handoff a b s) x \<noteq> L162 sc \<Longrightarrow> pc s x \<noteq> L162 sc"
  using handoff_pc_val [of a b s x "pc (handoff a b s) x"] assms by auto

lemma chan_inv_step:
  assumes l: "lock_inv s" and t: "table_inv s" and i: "chan_inv s"
  shows "chan_inv (step e s)"
proof (cases e)
  case (Upgrade c key)
  then show ?thesis
    using i by (auto simp: chan_inv_def upgrade_def)
next
  case (Go c)
  then show ?thesis
    using chan_inv_go [OF l t i] by simp
next
  case (WriteCode c ok)
  define p where "p = pc s c"
  have pp: "\<And>sc. p = L125 sc \<Longrightarrow> bholds (pc s c) = Some sc"
    by (simp add: p_def)
  show ?thesis
    unfolding WriteCode step.simps chan_inv_def write_code_def p_def [symmetric]
    using i [unfolded chan_inv_def] pp
    by (cases p) (auto simp: goto_def emit_def)
next
  case (Expire c)
  then show ?thesis
    using i by (auto simp: chan_inv_def expire_def)
next
  case (CtxDone c)
  define p where "p = pc s c"
  have pp: "\<And>sc. p = L165 sc \<Longrightarrow> sc < nextchan s \<and> (\<forall>k. slots s k \<noteq> Some sc)"
  proof -
    fix sc
    assume "p = L165 sc"
    then have "jholds (pc s c) = Some sc" and "pc s c \<noteq> L162 sc"
      by (simp_all add: p_def)
    then show "sc < nextchan s \<and> (\<forall>k. slots s k \<noteq> Some sc)"
      using i unfolding chan_inv_def by blast
  qed
  show ?thesis
    unfolding CtxDone step.simps chan_inv_def ctx_done_def p_def [symmetric]
    using i [unfolded chan_inv_def] pp
    by (cases p) (auto simp: goto_def emit_def)
next
  case (Handoff a b)
  show ?thesis
    unfolding Handoff step.simps chan_inv_def handoff_frame
    using i [unfolded chan_inv_def] handoff_bholds [of a b s] handoff_jholds [of a b s]
    by meson
next
  case (Read c r wok)
  then show ?thesis
    using i
    by (auto simp: chan_inv_def read_loop_def loop_return_def emit_def split: option.splits)
qed

lemma all_invs_run:
  assumes "lock_inv s \<and> table_inv s \<and> chan_inv s"
  shows "lock_inv (run es s) \<and> table_inv (run es s) \<and> chan_inv (run es s)"
  using assms
  by (rule run_invariant) (auto intro: lock_inv_step table_inv_step chan_inv_step)

lemma chan_inv_reachable: "chan_inv (run es (init g))"
  using all_invs_run [of "init g" es]
  by (simp add: lock_inv_init table_inv_init chan_inv_init)

section \<open>What a step changes\<close>

lemma step_table_frame:
  assumes "\<And>c. e \<noteq> Go c"
  shows "slots (step e s) = slots s" and "nextchan (step e s) = nextchan s"
proof -
  have "slots (step e s) = slots s \<and> nextchan (step e s) = nextchan s"
  proof (cases e)
    case (Upgrade c key)
    then show ?thesis by (simp add: upgrade_def)
  next
    case (Go c)
    then show ?thesis using assms by simp
  next
    case (WriteCode c ok)
    then show ?thesis
      by (auto simp: write_code_def goto_def emit_def split: gpc.splits)
  next
    case (Expire c)
    then show ?thesis by (simp add: expire_def)
  next
    case (CtxDone c)
    then show ?thesis
      by (auto simp: ctx_done_def goto_def emit_def split: gpc.splits)
  next
    case (Handoff a b)
    then show ?thesis by (simp add: handoff_frame)
  next
    case (Read c r wok)
    then show ?thesis
      by (auto simp: read_loop_def loop_return_def emit_def split: option.splits)
  qed
  then show "slots (step e s) = slots s" and "nextchan (step e s) = nextchan s"
    by simp_all
qed

lemma step_slotkey:
  assumes "pc s c \<noteq> Idle" and "e \<noteq> Go c"
  shows "slotkey (step e s) c = slotkey s c"
proof (cases e)
  case (Upgrade c' key)
  then show ?thesis using assms by (auto simp: upgrade_def)
next
  case (Go c')
  then show ?thesis using assms go_other(2) [of c c' s] by auto
next
  case (WriteCode c' ok)
  then show ?thesis
    by (auto simp: write_code_def goto_def emit_def split: gpc.splits)
next
  case (Expire c')
  then show ?thesis by (simp add: expire_def)
next
  case (CtxDone c')
  then show ?thesis
    by (auto simp: ctx_done_def goto_def emit_def split: gpc.splits)
next
  case (Handoff a b)
  then show ?thesis by (simp add: handoff_frame)
next
  case (Read c' r wok)
  then show ?thesis
    by (auto simp: read_loop_def loop_return_def emit_def split: option.splits)
qed

lemma step_nextchan: "nextchan s \<le> nextchan (step e s)"
proof -
  have "(\<exists>c. e = Go c) \<or> (\<forall>c. e \<noteq> Go c)" by auto
  then show ?thesis
  proof
    assume "\<exists>c. e = Go c"
    then show ?thesis using go_nextchan by auto
  next
    assume "\<forall>c. e \<noteq> Go c"
    then have "nextchan (step e s) = nextchan s"
      using step_table_frame(2) [of e s] by blast
    then show ?thesis by simp
  qed
qed

lemma step_slots_entry:
  assumes "slots (step e s) k = Some ch"
  shows "slots s k = Some ch \<or> ch = nextchan s"
proof -
  have "(\<exists>c. e = Go c) \<or> (\<forall>c. e \<noteq> Go c)" by auto
  then show ?thesis
  proof
    assume "\<exists>c. e = Go c"
    then obtain c where "e = Go c" by blast
    then show ?thesis using assms go_slots_entry [of c s k ch] by simp
  next
    assume "\<forall>c. e \<noteq> Go c"
    then have "slots (step e s) = slots s"
      using step_table_frame(1) [of e s] by blast
    then show ?thesis using assms by simp
  qed
qed

lemma jholds_step:
  assumes "jholds (pc (step e s) x) = Some sc"
  shows "jholds (pc s x) = Some sc
    \<or> (e = Go x \<and> pc s x = L151 \<and> slots s (slotkey s x) = Some sc)"
proof (cases e)
  case (Upgrade c key)
  then show ?thesis using assms by (auto simp: upgrade_def split: if_splits)
next
  case (Go c)
  have "c = x \<or> x \<noteq> c" by auto
  then show ?thesis
  proof
    assume cx: "c = x"
    define p where "p = pc s x"
    have q: "\<And>y. s = y \<Longrightarrow> pc y x = p"
      by (simp add: p_def)
    have "jholds (pc (go x s) x) = Some sc"
      using assms Go cx by simp
    then have "jholds p = Some sc \<or> (p = L151 \<and> slots s (slotkey s x) = Some sc)"
      unfolding go_def p_def [symmetric]
      using q
      by (cases p)
        (auto simp: goto_def emit_def split: prod.splits option.splits if_splits)
    then show ?thesis
      using Go cx by (simp add: p_def)
  next
    assume "x \<noteq> c"
    then show ?thesis
      using assms Go go_other(1) [of x c s] by simp
  qed
next
  case (WriteCode c ok)
  then show ?thesis
    using assms
    by (auto simp: write_code_def goto_def emit_def split: gpc.splits if_splits)
next
  case (Expire c)
  then show ?thesis using assms by (auto simp: expire_def split: if_splits)
next
  case (CtxDone c)
  then show ?thesis
    using assms
    by (auto simp: ctx_done_def goto_def emit_def split: gpc.splits if_splits)
next
  case (Handoff a b)
  then show ?thesis using assms handoff_jholds(1) [of a b s x sc] by simp
next
  case (Read c r wok)
  then show ?thesis
    using assms
    by (auto simp: read_loop_def loop_return_def emit_def split: option.splits if_splits)
qed

lemma timeout_path_moves:
  assumes "pc s c = L133 \<or> pc s c = L134 \<or> pc s c = L135 \<or> pc s c = L136
    \<or> pc s c = Returned"
  shows "pc (step e s) c = pc s c \<or> e = Go c"
proof (cases e)
  case (Upgrade c' key)
  then show ?thesis using assms by (auto simp: upgrade_def)
next
  case (Go c')
  then show ?thesis using go_other(1) [of c c' s] by auto
next
  case (WriteCode c' ok)
  then show ?thesis
    using assms by (auto simp: write_code_def goto_def emit_def split: gpc.splits)
next
  case (Expire c')
  then show ?thesis by (auto simp: expire_def)
next
  case (CtxDone c')
  then show ?thesis
    using assms by (auto simp: ctx_done_def goto_def emit_def split: gpc.splits)
next
  case (Handoff a b)
  define q where "q = pc (handoff a b s) c"
  have "pc s c = q
      \<or> (q = after_send (pc s c) \<and> sending (pc s c) \<noteq> None)
      \<or> (q = after_recv (pc s c) \<and> receiving (pc s c) \<noteq> None)"
    using handoff_pc [of a b s c q] q_def by auto
  then show ?thesis
    using assms Handoff q_def by auto
next
  case (Read c' r wok)
  then show ?thesis
    by (auto simp: read_loop_def loop_return_def emit_def split: option.splits)
qed

section \<open>Nobody else joins a taken entry\<close>

lemma sole_joiner_step:
  assumes l: "lock_inv s" and a: "after_take c1 sc K tbl n s" and o: "sole_joiner c1 sc s"
    and k: "tbl K = Some sc" and f: "sc < n"
  shows "sole_joiner c1 sc (step e s)"
  unfolding sole_joiner_def
proof (intro allI impI notI)
  fix c2
  assume c2: "c2 \<noteq> c1" and h: "jholds (pc (step e s) c2) = Some sc"
  have "jholds (pc s c2) \<noteq> Some sc"
    using o c2 by (simp add: sole_joiner_def)
  then have look: "pc s c2 = L151" "slots s (slotkey s c2) = Some sc"
    using jholds_step [OF h] by auto
  have "crit (pc s c2)"
    using look(1) by simp
  then have "\<not> crit (pc s c1)"
    using crit_exclusive [OF l _ c2 [symmetric]] by blast
  then have "pc s c1 \<noteq> L162 sc"
    by auto
  then have "\<forall>k ch. slots s k = Some ch \<longrightarrow> tbl k = Some ch \<and> ch \<noteq> sc \<or> n \<le> ch"
    using a unfolding after_take_def by blast
  then show False
    using look(2) f by fastforce
qed

lemma take_invs_run:
  assumes "lock_inv s" and "table_inv s" and "chan_inv s"
    and "after_take c1 sc K tbl n s" and "sole_joiner c1 sc s"
    and k: "tbl K = Some sc" and f: "sc < n"
  shows "lock_inv (run es s) \<and> table_inv (run es s) \<and> chan_inv (run es s)
    \<and> after_take c1 sc K tbl n (run es s) \<and> sole_joiner c1 sc (run es s)"
  using assms(1-5)
proof (induction es arbitrary: s)
  case Nil
  then show ?case by simp
next
  case (Cons e es)
  show ?case
    using Cons.IH [of "step e s"] Cons.prems k f
    by (simp add: lock_inv_step table_inv_step chan_inv_step after_take_step
        sole_joiner_step)
qed

section \<open>After a booker's timeout\<close>

lemma go_booker_timeout:
  "pc s c = L133 \<Longrightarrow> lock s = None \<Longrightarrow>
     go c s = s\<lparr>lock := Some c, pc := (pc s)(c := L134)\<rparr>"
  "pc s c = L133 \<Longrightarrow> lock s \<noteq> None \<Longrightarrow> go c s = s"
  "pc s c = L134 \<Longrightarrow>
     go c s = s\<lparr>slots := (slots s)(slotkey s c := None), pc := (pc s)(c := L135)\<rparr>"
  "pc s c = L135 \<Longrightarrow> go c s = s\<lparr>lock := None, pc := (pc s)(c := L136)\<rparr>"
  "pc s c = L136 \<Longrightarrow>
     go c s = s\<lparr>pc := (pc s)(c := Returned),
       sent := (sent s)(c := sent s c @ [CloseFrame CloseSlotTimedOut ''timed out'', ConnClosed])\<rparr>"
  by (auto simp: go_def goto_def emit_def)

lemma after_timeout_go:
  assumes a: "after_timeout c sc K n s"
  shows "after_timeout c sc K n (go c s)"
proof -
  have n: "n \<le> nextchan s" and key: "slotkey s c = K"
    using a by (simp_all add: after_timeout_def)
  from a consider
      (wait) "pc s c = L133" "\<forall>k. slots s k = Some sc \<longrightarrow> k = K"
    | (del) "pc s c = L134" "\<forall>k. slots s k = Some sc \<longrightarrow> k = K"
    | (unl) "pc s c = L135" "\<forall>k. slots s k \<noteq> Some sc" "\<forall>ch. slots s K = Some ch \<longrightarrow> n \<le> ch"
    | (cls) "pc s c = L136" "\<forall>k. slots s k \<noteq> Some sc" "\<forall>ch. slots s K = Some ch \<longrightarrow> n \<le> ch"
    | (ret) "pc s c = Returned"
    unfolding after_timeout_def by blast
  then show ?thesis
  proof cases
    case wait
    have "lock s = None \<or> lock s \<noteq> None" by blast
    then show ?thesis
    proof
      assume free: "lock s = None"
      show ?thesis
        unfolding go_booker_timeout(1) [OF wait(1) free] after_timeout_def
        using n key wait(2) by simp
    next
      assume held: "lock s \<noteq> None"
      show ?thesis
        unfolding go_booker_timeout(2) [OF wait(1) held] by (rule a)
    qed
  next
    case del
    show ?thesis
      unfolding go_booker_timeout(3) [OF del(1)] after_timeout_def
      using n key del(2) by auto
  next
    case unl
    show ?thesis
      unfolding go_booker_timeout(4) [OF unl(1)] after_timeout_def
      using n key unl(2,3) by simp
  next
    case cls
    show ?thesis
      unfolding go_booker_timeout(5) [OF cls(1)] after_timeout_def
      using n key cls(2,3) by simp
  next
    case ret
    show ?thesis
      unfolding go_joiner(5) [OF ret] by (rule a)
  qed
qed

lemma after_timeout_other:
  assumes a: "after_timeout c sc K n s" and f: "sc < n" and e: "e \<noteq> Go c"
  shows "after_timeout c sc K n (step e s)"
proof -
  have n: "n \<le> nextchan s" and key: "slotkey s c = K"
    using a by (simp_all add: after_timeout_def)
  have path: "pc s c = L133 \<or> pc s c = L134 \<or> pc s c = L135 \<or> pc s c = L136
      \<or> pc s c = Returned"
    using a unfolding after_timeout_def by blast
  have n': "n \<le> nextchan (step e s)"
    using n step_nextchan [of s e] by simp
  have same: "pc (step e s) c = pc s c"
    using timeout_path_moves [OF path, of e] e by simp
  have notidle: "pc s c \<noteq> Idle"
    using path by auto
  have key': "slotkey (step e s) c = K"
    using step_slotkey [OF notidle e] key by simp
  have ent: "slots s k = Some ch \<or> n \<le> ch" if "slots (step e s) k = Some ch" for k ch
    using step_slots_entry [OF that] n by auto
  have notsc: "slots s k = Some sc" if "slots (step e s) k = Some sc" for k
    using ent [OF that] f by auto
  show ?thesis
    using a n' ent notsc
    unfolding after_timeout_def same key'
    by blast
qed

lemma after_timeout_step:
  assumes a: "after_timeout c sc K n s" and f: "sc < n"
  shows "after_timeout c sc K n (step e s)"
proof -
  have "e = Go c \<or> e \<noteq> Go c" by blast
  then show ?thesis
  proof
    assume "e = Go c"
    then show ?thesis
      using after_timeout_go [OF a] by simp
  next
    assume "e \<noteq> Go c"
    then show ?thesis
      using after_timeout_other [OF a f] by simp
  qed
qed

lemma after_timeout_run:
  assumes "after_timeout c sc K n s" and "sc < n"
  shows "after_timeout c sc K n (run es s)"
  using assms(1)
  by (rule run_invariant) (simp add: after_timeout_step assms(2))

lemmas model_defs =
  init_def upgrade_def go_def goto_def emit_def write_code_def expire_def ctx_done_def
  handoff_def read_loop_def loop_return_def

lemmas alloc_eval =
  freeslot_def attempts_numeral Intn_def Itoa_def formatBits.simps digits_def

section \<open>The scenarios, evaluated\<close>

lemma booked_state:
  "run booked (init (sconst 7)) =
     \<lparr>slots = [''7'' \<mapsto> 0], lock = None, nextchan = Suc 0, rng = sconst 7,
      pc = (\<lambda>c. Idle)(0 := L130 0), looping = (\<lambda>c. False)(0 := True),
      slotkey = (\<lambda>c. [])(0 := ''7''), rconn = (\<lambda>c. None), ctxdone = (\<lambda>c. False),
      sent = (\<lambda>c. [])(0 := [Message TextMessage ''7''])\<rparr>"
  by (simp add: booked_def model_defs alloc_eval)

lemma paired_state:
  "run paired (init (sconst 7)) =
     \<lparr>slots = Map.empty, lock = None, nextchan = Suc 0, rng = sconst 7,
      pc = (\<lambda>c. Idle)(1 := Returned, 0 := Returned),
      looping = (\<lambda>c. False)(0 := True, 1 := True),
      slotkey = (\<lambda>c. [])(0 := ''7'', 1 := ''7''),
      rconn = (\<lambda>c. None)(1 \<mapsto> 0, 0 \<mapsto> 1), ctxdone = (\<lambda>c. False),
      sent = (\<lambda>c. [])(0 := [Message TextMessage ''7''])\<rparr>"
  unfolding paired_def run_append booked_state
  by (simp add: model_defs)

section \<open>A join takes the entry\<close>

text \<open>
  Claim C1 as stated fails. Connection 0 books code \<^verbatim>\<open>7\<close>, and connections 1 and 3 both
  ask to join \<^verbatim>\<open>7\<close>. Joiner 1 takes the entry. Before joiner 3 looks the code up,
  connection 2 books a slot and \<^verbatim>\<open>freeslot\<close> draws the freed code \<^verbatim>\<open>7\<close> again. Joiner 3
  then finds \<^verbatim>\<open>7\<close> in the table too: both joiners have observed the code as present,
  both are paired (1 with 0, 3 with 2), and neither receives close code 4000.
\<close>

theorem rebooked_code_counterexample:
  "pc (run (booked @ [Upgrade 1 ''7'', Upgrade 3 ''7'', Go 1, Go 1, Go 1])
        (init (sconst 7))) 1 = L162 0
   \<and> pc (run (booked @ [Upgrade 1 ''7'', Upgrade 3 ''7'', Go 1, Go 1, Go 1, Go 1, Go 1,
        Upgrade 2 [], Go 2, Go 2, Go 2, Go 2, Go 2, WriteCode 2 True, Go 3, Go 3, Go 3])
        (init (sconst 7))) 3 = L162 1
   \<and> slotkey (run (booked @ [Upgrade 1 ''7'', Upgrade 3 ''7'', Go 1, Go 1, Go 1, Go 1, Go 1,
        Upgrade 2 [], Go 2, Go 2, Go 2, Go 2, Go 2, WriteCode 2 True, Go 3, Go 3, Go 3,
        Go 3, Go 3, Handoff 0 1, Handoff 1 0, Handoff 2 3, Handoff 3 2])
        (init (sconst 7))) 1 = ''7''
   \<and> slotkey (run (booked @ [Upgrade 1 ''7'', Upgrade 3 ''7'', Go 1, Go 1, Go 1, Go 1, Go 1,
        Upgrade 2 [], Go 2, Go 2, Go 2, Go 2, Go 2, WriteCode 2 True, Go 3, Go 3, Go 3,
        Go 3, Go 3, Handoff 0 1, Handoff 1 0, Handoff 2 3, Handoff 3 2])
        (init (sconst 7))) 3 = ''7''
   \<and> rconn (run (booked @ [Upgrade 1 ''7'', Upgrade 3 ''7'', Go 1, Go 1, Go 1, Go 1, Go 1,
        Upgrade 2 [], Go 2, Go 2, Go 2, Go 2, Go 2, WriteCode 2 True, Go 3, Go 3, Go 3,
        Go 3, Go 3, Handoff 0 1, Handoff 1 0, Handoff 2 3, Handoff 3 2])
        (init (sconst 7))) 1 = Some 0
   \<and> rconn (run (booked @ [Upgrade 1 ''7'', Upgrade 3 ''7'', Go 1, Go 1, Go 1, Go 1, Go 1,
        Upgrade 2 [], Go 2, Go 2, Go 2, Go 2, Go 2, WriteCode 2 True, Go 3, Go 3, Go 3,
        Go 3, Go 3, Handoff 0 1, Handoff 1 0, Handoff 2 3, Handoff 3 2])
        (init (sconst 7))) 3 = Some 2
   \<and> sent (run (booked @ [Upgrade 1 ''7'', Upgrade 3 ''7'', Go 1, Go 1, Go 1, Go 1, Go 1,
        Upgrade 2 [], Go 2, Go 2, Go 2, Go 2, Go 2, WriteCode 2 True, Go 3, Go 3, Go 3,
        Go 3, Go 3, Handoff 0 1, Handoff 1 0, Handoff 2 3, Handoff 3 2])
        (init (sconst 7))) 1 = []
   \<and> sent (run (booked @ [Upgrade 1 ''7'', Upgrade 3 ''7'', Go 1, Go 1, Go 1, Go 1, Go 1,
        Upgrade 2 [], Go 2, Go 2, Go 2, Go 2, Go 2, WriteCode 2 True, Go 3, Go 3, Go 3,
        Go 3, Go 3, Handoff 0 1, Handoff 1 0, Handoff 2 3, Handoff 3 2])
        (init (sconst 7))) 3 = []"
  unfolding run_append booked_state
  by (simp add: model_defs alloc_eval)

text \<open>
  Claim C1, amended. Let joiner \<open>c1\<close> look up its code \<open>K\<close> at line 151 in a reachable
  state and find channel \<open>sc\<close>. Whatever the handlers do afterwards: as long as \<open>c1\<close> has
  not executed the \<^verbatim>\<open>delete\<close> of line 162 it holds the mutex and the table is the one it
  looked at, and its \<^verbatim>\<open>delete\<close> removes \<open>K\<close>; when \<open>c1\<close> is at a channel operation
  (lines 165, 175) no key of the table maps to \<open>sc\<close>. Any other joiner that looks \<open>K\<close> up
  later finds nothing, and is closed with 4000, unless the code has been booked anew
  since: then it finds a channel made after the lookup of \<open>c1\<close>, never \<open>sc\<close>. No other
  connection ever holds \<open>sc\<close> as a joiner, at most one booker holds \<open>sc\<close>, and every
  communication over \<open>sc\<close> is between \<open>c1\<close> and that booker, the receiver's \<^verbatim>\<open>rconn\<close>
  becoming the sender: no third peer is paired over a taken entry.
\<close>

theorem join_takes_entry:
  assumes "s = run evs (init g)"
    and "pc s c1 = L151" and "slots s (slotkey s c1) = Some sc"
    and "s' = run evs' (step (Go c1) s)"
  shows
    "pc (step (Go c1) s) c1 = L162 sc \<and> slots (step (Go c1) s) = slots s
     \<and> (pc s' c1 = L162 sc \<or> pc s' c1 = L163 sc \<or> pc s' c1 = L165 sc
          \<or> pc s' c1 = L175 sc \<or> pc s' c1 = Returned)
     \<and> (pc s' c1 = L162 sc \<longrightarrow>
          lock s' = Some c1 \<and> slots s' = slots s
          \<and> slots (step (Go c1) s') (slotkey s c1) = None)
     \<and> (pc s' c1 = L165 sc \<or> pc s' c1 = L175 sc \<longrightarrow> (\<forall>k. slots s' k \<noteq> Some sc))
     \<and> (\<forall>c2. c2 \<noteq> c1 \<and> pc s' c2 = L151 \<and> slotkey s' c2 = slotkey s c1 \<longrightarrow>
          (case slots s' (slotkey s' c2) of
             None \<Rightarrow>
               sent (run [Go c2, Go c2, Go c2] s') c2 =
                 sent s' c2 @ [CloseFrame 4000 ''no such slot'', ConnClosed]
           | Some ch \<Rightarrow> nextchan s \<le> ch \<and> ch \<noteq> sc))
     \<and> (\<forall>c2. c2 \<noteq> c1 \<and> pc s' c2 = L151 \<and> slotkey s' c2 = slotkey s c1
            \<and> nextchan s' = nextchan s \<longrightarrow>
          slots s' (slotkey s' c2) = None)
     \<and> (\<forall>c2. c2 \<noteq> c1 \<longrightarrow> jholds (pc s' c2) \<noteq> Some sc)
     \<and> (\<forall>a b. sending (pc s' a) = Some sc \<and> receiving (pc s' b) = Some sc \<longrightarrow>
          rconn (step (Handoff a b) s') b = Some a
          \<and> (a = c1 \<and> bholds (pc s' b) = Some sc \<or> b = c1 \<and> bholds (pc s' a) = Some sc))
     \<and> (\<forall>a b. bholds (pc s' a) = Some sc \<and> bholds (pc s' b) = Some sc \<longrightarrow> a = b)"
proof -
  define K where "K = slotkey s c1"
  define s1 where "s1 = step (Go c1) s"
  have s1: "s1 = s\<lparr>pc := (pc s)(c1 := L162 sc)\<rparr>"
    using assms(2,3) by (simp add: s1_def go_def goto_def)
  have l: "lock_inv s" and t: "table_inv s" and ci: "chan_inv s"
    using assms(1) lock_inv_reachable table_inv_reachable chan_inv_reachable by simp_all
  have l1: "lock_inv s1" and t1: "table_inv s1" and ci1: "chan_inv s1"
    using lock_inv_step [OF l, of "Go c1"] table_inv_step [OF l t, of "Go c1"]
      chan_inv_step [OF l t ci, of "Go c1"]
    by (simp_all add: s1_def)
  have k: "slots s K = Some sc"
    using assms(3) by (simp add: K_def)
  have fresh: "sc < nextchan s"
    using t k unfolding table_inv_def by blast
  have a1: "after_take c1 sc K (slots s) (nextchan s) s1"
    by (simp add: after_take_def s1 K_def)
  have o1: "sole_joiner c1 sc s1"
    unfolding sole_joiner_def
  proof (intro allI impI notI)
    fix c2
    assume c2: "c2 \<noteq> c1" and h: "jholds (pc s1 c2) = Some sc"
    have h': "jholds (pc s c2) = Some sc"
      using c2 h by (simp add: s1)
    have "crit (pc s c1)"
      using assms(2) by simp
    then have "\<not> crit (pc s c2)"
      using crit_exclusive [OF l _ c2] by blast
    then have "pc s c2 \<noteq> L162 sc"
      by auto
    then have "slots s K \<noteq> Some sc"
      using ci h' unfolding chan_inv_def by blast
    then show False
      using k by simp
  qed
  have s': "s' = run evs' s1"
    using assms(4) by (simp add: s1_def)
  have all: "lock_inv s' \<and> table_inv s' \<and> chan_inv s'
      \<and> after_take c1 sc K (slots s) (nextchan s) s' \<and> sole_joiner c1 sc s'"
    unfolding s' using l1 t1 ci1 a1 o1 k fresh by (rule take_invs_run)
  then have l': "lock_inv s'" and t': "table_inv s'" and ci': "chan_inv s'"
    and a: "after_take c1 sc K (slots s) (nextchan s) s'" and o: "sole_joiner c1 sc s'"
    by simp_all
  have phase: "pc s' c1 = L162 sc \<or> pc s' c1 = L163 sc \<or> pc s' c1 = L165 sc
      \<or> pc s' c1 = L175 sc \<or> pc s' c1 = Returned"
    using a unfolding after_take_def by blast
  have before: "lock s' = Some c1 \<and> slots s' = slots s
      \<and> slots (step (Go c1) s') (slotkey s c1) = None" if p: "pc s' c1 = L162 sc"
  proof -
    have "crit (pc s' c1)"
      using p by simp
    then have "lock s' = Some c1"
      using l' by (simp add: lock_inv_def)
    moreover have "slots s' = slots s" and "slotkey s' c1 = K"
      using a p unfolding after_take_def by auto
    ultimately show ?thesis
      using p by (simp add: go_joiner(1) K_def)
  qed
  have later: "tbl_ok" if "pc s' c1 \<noteq> L162 sc" and
    "tbl_ok = (\<forall>k ch. slots s' k = Some ch \<longrightarrow>
        slots s k = Some ch \<and> ch \<noteq> sc \<or> nextchan s \<le> ch)" for tbl_ok
    using a that unfolding after_take_def by blast
  have gone: "\<forall>k. slots s' k \<noteq> Some sc" if "pc s' c1 = L165 sc \<or> pc s' c1 = L175 sc"
  proof -
    have "pc s' c1 \<noteq> L162 sc"
      using that by auto
    then have "\<forall>k ch. slots s' k = Some ch \<longrightarrow>
        slots s k = Some ch \<and> ch \<noteq> sc \<or> nextchan s \<le> ch"
      using later by blast
    then show ?thesis
      using fresh by fastforce
  qed
  have other: "case slots s' (slotkey s' c2) of
        None \<Rightarrow>
          sent (run [Go c2, Go c2, Go c2] s') c2 =
            sent s' c2 @ [CloseFrame 4000 ''no such slot'', ConnClosed]
      | Some ch \<Rightarrow> nextchan s \<le> ch \<and> ch \<noteq> sc"
    if c2: "c2 \<noteq> c1" "pc s' c2 = L151" "slotkey s' c2 = slotkey s c1" for c2
  proof -
    define r where "r = slots s' (slotkey s' c2)"
    show ?thesis
    proof (cases r)
      case None
      then have n: "slots s' (slotkey s' c2) = None"
        by (simp add: r_def)
      show ?thesis
        unfolding n option.case join_missing [OF c2(2) n]
        by (simp add: CloseNoSuchSlot_def)
    next
      case (Some ch)
      then have Some: "slots s' (slotkey s' c2) = Some ch"
        by (simp add: r_def)
      have "crit (pc s' c2)"
        using c2(2) by simp
      then have "\<not> crit (pc s' c1)"
        using crit_exclusive [OF l' _ c2(1) [symmetric]] by blast
      then have "pc s' c1 \<noteq> L162 sc"
        by auto
      then have "\<forall>k ch. slots s' k = Some ch \<longrightarrow>
          slots s k = Some ch \<and> ch \<noteq> sc \<or> nextchan s \<le> ch"
        using later by blast
      then have "slots s K = Some ch \<and> ch \<noteq> sc \<or> nextchan s \<le> ch"
        using Some c2(3) by (simp add: K_def)
      then have "nextchan s \<le> ch \<and> ch \<noteq> sc"
        using k fresh by auto
      then show ?thesis
        by (simp add: Some)
    qed
  qed
  have none: "slots s' (slotkey s' c2) = None"
    if c2: "c2 \<noteq> c1" "pc s' c2 = L151" "slotkey s' c2 = slotkey s c1"
      and same: "nextchan s' = nextchan s" for c2
  proof (rule ccontr)
    assume "slots s' (slotkey s' c2) \<noteq> None"
    then obtain ch where ch: "slots s' (slotkey s' c2) = Some ch"
      by auto
    then have "nextchan s \<le> ch"
      using other [OF c2] by simp
    moreover have "ch < nextchan s'"
      using t' ch unfolding table_inv_def by blast
    ultimately show False
      using same by simp
  qed
  have third: "jholds (pc s' c2) \<noteq> Some sc" if "c2 \<noteq> c1" for c2
    using o that by (simp add: sole_joiner_def)
  have pair: "rconn (step (Handoff a b) s') b = Some a
      \<and> (a = c1 \<and> bholds (pc s' b) = Some sc \<or> b = c1 \<and> bholds (pc s' a) = Some sc)"
    if snd: "sending (pc s' a) = Some sc" and rcv: "receiving (pc s' b) = Some sc" for a b
  proof -
    have r: "rconn (step (Handoff a b) s') b = Some a"
      using snd rcv by (simp add: handoff_def)
    have pa: "pc s' a = L130 sc \<or> pc s' a = L175 sc"
      using snd by (simp add: sending_cases)
    have pb: "pc s' b = L145 sc \<or> pc s' b = L165 sc"
      using rcv by (simp add: receiving_cases)
    have bb: "False" if "pc s' a = L130 sc" and "pc s' b = L145 sc"
    proof -
      have "bholds (pc s' a) = Some sc" and "bholds (pc s' b) = Some sc"
        using that by simp_all
      then have "a = b"
        using ci' unfolding chan_inv_def by blast
      then show False
        using that by simp
    qed
    have jj: "False" if "pc s' a = L175 sc" and "pc s' b = L165 sc"
    proof -
      have "a = c1" and "b = c1"
        using that third [of a] third [of b] by auto
      then show False
        using that by simp
    qed
    have bj: "b = c1 \<and> bholds (pc s' a) = Some sc"
      if "pc s' a = L130 sc" and "pc s' b = L165 sc"
      using that third [of b] by auto
    have jb: "a = c1 \<and> bholds (pc s' b) = Some sc"
      if "pc s' a = L175 sc" and "pc s' b = L145 sc"
      using that third [of a] by auto
    from r pa pb bb jj bj jb show ?thesis
      by blast
  qed
  have first: "pc (step (Go c1) s) c1 = L162 sc \<and> slots (step (Go c1) s) = slots s"
    using assms(2,3) by (simp add: go_def goto_def)
  have booker: "a = b"
    if "bholds (pc s' a) = Some sc" and "bholds (pc s' b) = Some sc" for a b
    using ci' that unfolding chan_inv_def by blast
  from first phase before gone other none third pair booker show ?thesis
    by blast
qed

theorem join_takes_entry_witness:
  "pc (run [Upgrade 0 [], Go 0, Go 0, Go 0, Go 0, Go 0, WriteCode 0 True,
        Upgrade 1 ''7'', Upgrade 2 ''7'', Go 1, Go 1] (init (sconst 7))) 1 = L151
   \<and> slots (run [Upgrade 0 [], Go 0, Go 0, Go 0, Go 0, Go 0, WriteCode 0 True,
        Upgrade 1 ''7'', Upgrade 2 ''7'', Go 1, Go 1] (init (sconst 7))) ''7'' = Some 0
   \<and> pc (run [Upgrade 0 [], Go 0, Go 0, Go 0, Go 0, Go 0, WriteCode 0 True,
        Upgrade 1 ''7'', Upgrade 2 ''7'', Go 1, Go 1, Go 1, Go 1, Go 1, Go 2, Go 2]
        (init (sconst 7))) 2 = L151
   \<and> sent (run [Upgrade 0 [], Go 0, Go 0, Go 0, Go 0, Go 0, WriteCode 0 True,
        Upgrade 1 ''7'', Upgrade 2 ''7'', Go 1, Go 1, Go 1, Go 1, Go 1, Go 2, Go 2,
        Go 2, Go 2, Go 2] (init (sconst 7))) 2 =
      [CloseFrame 4000 ''no such slot'', ConnClosed]"
proof -
  define s where "s = run [Upgrade 0 [], Go 0, Go 0, Go 0, Go 0, Go 0, WriteCode 0 True,
    Upgrade 1 ''7'', Upgrade 2 ''7'', Go 1, Go 1] (init (sconst 7))"
  define s' where "s' = run [Go 1, Go 1, Go 2, Go 2] (step (Go 1) s)"
  have h1: "pc s 1 = L151" and h2: "slots s (slotkey s 1) = Some 0"
    and h3: "slotkey s 1 = ''7''"
    by (simp_all add: s_def model_defs alloc_eval)
  have h4: "pc s' 2 = L151" and h5: "slotkey s' 2 = slotkey s 1"
    and h6: "slots s' (slotkey s' 2) = None" and h7: "sent s' 2 = []"
    by (simp_all add: s'_def s_def model_defs alloc_eval)
  have "\<forall>c2. c2 \<noteq> 1 \<and> pc s' c2 = L151 \<and> slotkey s' c2 = slotkey s 1 \<longrightarrow>
      (case slots s' (slotkey s' c2) of
         None \<Rightarrow>
           sent (run [Go c2, Go c2, Go c2] s') c2 =
             sent s' c2 @ [CloseFrame 4000 ''no such slot'', ConnClosed]
       | Some ch \<Rightarrow> nextchan s \<le> ch \<and> ch \<noteq> 0)"
    using join_takes_entry [OF s_def h1 h2 s'_def] by blast
  then have "sent (run [Go 2, Go 2, Go 2] s') 2 =
      sent s' 2 @ [CloseFrame 4000 ''no such slot'', ConnClosed]"
    using h4 h5 h6 by fastforce
  then have "sent (run [Go 2, Go 2, Go 2] s') 2 = [CloseFrame 4000 ''no such slot'', ConnClosed]"
    using h7 by simp
  moreover have "run [Go 2, Go 2, Go 2] s' =
      run [Upgrade 0 [], Go 0, Go 0, Go 0, Go 0, Go 0, WriteCode 0 True,
        Upgrade 1 ''7'', Upgrade 2 ''7'', Go 1, Go 1, Go 1, Go 1, Go 1, Go 2, Go 2,
        Go 2, Go 2, Go 2] (init (sconst 7))"
    unfolding s'_def s_def by simp
  moreover have "s' = run [Upgrade 0 [], Go 0, Go 0, Go 0, Go 0, Go 0, WriteCode 0 True,
        Upgrade 1 ''7'', Upgrade 2 ''7'', Go 1, Go 1, Go 1, Go 1, Go 1, Go 2, Go 2]
        (init (sconst 7))"
    unfolding s'_def s_def by simp
  ultimately show ?thesis
    using h1 h2 h3 h4 unfolding s_def by simp
qed

section \<open>The relay loop\<close>

lemma emit_nothing: "emit c [] s = s"
  by (simp add: emit_def)

lemma emit_emit: "emit c ys (emit c xs s) = emit c (xs @ ys) s"
  by (simp add: emit_def)

lemma read_forwards:
  assumes "looping s c" and "rconn s c = Some rc"
  shows "step (Read c (Some (t, p)) True) s = emit rc [Message t p] s"
  using assms by (simp add: read_loop_def)

lemma sent_append_only: "\<exists>zs. sent (step e s) c = sent s c @ zs"
proof (cases e)
  case (Upgrade c' key)
  then show ?thesis by (simp add: upgrade_def)
next
  case (Go c')
  define q where "q = pc s c'"
  show ?thesis
    unfolding Go step.simps go_def q_def [symmetric]
    by (cases q) (auto simp: goto_def emit_def split: prod.splits option.splits)
next
  case (WriteCode c' ok)
  then show ?thesis
    by (auto simp: write_code_def goto_def emit_def split: gpc.splits)
next
  case (Expire c')
  then show ?thesis by (simp add: expire_def)
next
  case (CtxDone c')
  then show ?thesis
    by (auto simp: ctx_done_def goto_def emit_def split: gpc.splits)
next
  case (Handoff a b)
  then show ?thesis by (simp add: handoff_frame)
next
  case (Read c' r wok)
  then show ?thesis
    by (auto simp: read_loop_def loop_return_def emit_def split: option.splits)
qed

text \<open>
  Claim C3. In a paired session, that is, while the read loop of \<open>c\<close> runs and its
  \<^verbatim>\<open>rconn\<close> is the connection \<open>rc\<close>, the frames \<open>fs\<close> read one after the other from \<open>c\<close>
  (each written successfully) leave the state as it was, except that exactly these
  frames, each with its type and its payload and in the order read, have been appended
  to what was written to \<open>rc\<close>. No step of any handler removes or reorders what was
  written to a connection.
\<close>

theorem relay_forwards_frames:
  "(looping s c \<and> rconn s c = Some rc \<longrightarrow>
      run (map (\<lambda>(t, p). Read c (Some (t, p)) True) fs) s =
        s\<lparr>sent := (sent s)(rc := sent s rc @ map (\<lambda>(t, p). Message t p) fs)\<rparr>)
   \<and> (\<forall>e c'. \<exists>zs. sent (step e s) c' = sent s c' @ zs)"
proof -
  have "run (map (\<lambda>(t, p). Read c (Some (t, p)) True) fs) s =
      emit rc (map (\<lambda>(t, p). Message t p) fs) s"
    if "looping s c" and "rconn s c = Some rc"
    using that
  proof (induction fs arbitrary: s)
    case Nil
    then show ?case by (simp add: emit_nothing)
  next
    case (Cons f fs)
    obtain t p where f: "f = (t, p)" by (cases f)
    have "looping (emit rc [Message t p] s) c" and "rconn (emit rc [Message t p] s) c = Some rc"
      using Cons.prems by (simp_all add: emit_def)
    then show ?case
      using Cons.IH [of "emit rc [Message t p] s"] Cons.prems
      by (simp add: f read_loop_def emit_emit)
  qed
  then show ?thesis
    using sent_append_only by (auto simp: emit_def)
qed

theorem relay_forwards_frames_witness:
  "looping (run paired (init (sconst 7))) 0
   \<and> rconn (run paired (init (sconst 7))) 0 = Some 1
   \<and> sent (run (paired @ [Read 0 (Some (BinaryMessage, ''wxyz'')) True,
        Read 0 (Some (TextMessage, ''hi'')) True]) (init (sconst 7))) 1 =
      [Message BinaryMessage ''wxyz'', Message TextMessage ''hi'']"
proof -
  have h: "looping (run paired (init (sconst 7))) 0 \<and>
      rconn (run paired (init (sconst 7))) 0 = Some 1"
    by (simp add: paired_state)
  have "run (map (\<lambda>(t, p). Read 0 (Some (t, p)) True)
        [(BinaryMessage, ''wxyz''), (TextMessage, ''hi'')]) (run paired (init (sconst 7))) =
      (run paired (init (sconst 7)))\<lparr>sent := (sent (run paired (init (sconst 7))))
        (1 := sent (run paired (init (sconst 7))) 1 @
          map (\<lambda>(t, p). Message t p) [(BinaryMessage, ''wxyz''), (TextMessage, ''hi'')])\<rparr>"
    using relay_forwards_frames [of "run paired (init (sconst 7))" 0 1
        "[(BinaryMessage, ''wxyz''), (TextMessage, ''hi'')]"] h
    by blast
  then have "sent (run [Read 0 (Some (BinaryMessage, ''wxyz'')) True,
        Read 0 (Some (TextMessage, ''hi'')) True] (run paired (init (sconst 7)))) 1 =
      [Message BinaryMessage ''wxyz'', Message TextMessage ''hi'']"
    by (simp add: paired_state)
  then show ?thesis
    using h by (simp add: run_append)
qed

section \<open>The deadline\<close>

lemma go_frame:
  "looping (go c s) = looping s" "rconn (go c s) = rconn s" "ctxdone (go c s) = ctxdone s"
proof -
  define q where "q = pc s c"
  show "looping (go c s) = looping s"
    unfolding go_def q_def [symmetric]
    by (cases q) (simp_all add: goto_def emit_def split: prod.splits option.splits)
  show "rconn (go c s) = rconn s"
    unfolding go_def q_def [symmetric]
    by (cases q) (simp_all add: goto_def emit_def split: prod.splits option.splits)
  show "ctxdone (go c s) = ctxdone s"
    unfolding go_def q_def [symmetric]
    by (cases q) (simp_all add: goto_def emit_def split: prod.splits option.splits)
qed

lemma loop_exit:
  assumes "looping s c" and "\<not> looping (step e s) c"
  shows "\<exists>r wok. e = Read c r wok \<and> (r = None \<or> rconn s c = None \<or> \<not> wok)"
proof (cases e)
  case (Upgrade c' key)
  then show ?thesis
    using assms by (auto simp: upgrade_def split: if_splits)
next
  case (Go c')
  then show ?thesis
    using assms by (simp add: go_frame)
next
  case (WriteCode c' ok)
  then show ?thesis
    using assms by (auto simp: write_code_def goto_def emit_def split: gpc.splits if_splits)
next
  case (Expire c')
  then show ?thesis
    using assms by (auto simp: expire_def split: if_splits)
next
  case (CtxDone c')
  then show ?thesis
    using assms by (auto simp: ctx_done_def goto_def emit_def split: gpc.splits if_splits)
next
  case (Handoff a b)
  then show ?thesis
    using assms by (simp add: handoff_frame)
next
  case (Read c' r wok)
  then show ?thesis
    using assms
    by (auto simp: read_loop_def loop_return_def emit_def split: option.splits if_splits)
qed

text \<open>
  Claim C4 as stated fails. Connections 0 and 1 are paired, both deadlines fire, and a
  binary frame read from connection 0 afterwards is still forwarded to connection 1;
  both read loops are still running.
\<close>

theorem deadline_counterexample:
  "ctxdone (run (paired @ [Expire 0, Expire 1, CtxDone 0, CtxDone 1,
      Read 0 (Some (BinaryMessage, ''late'')) True]) (init (sconst 7))) 0
   \<and> ctxdone (run (paired @ [Expire 0, Expire 1, CtxDone 0, CtxDone 1,
      Read 0 (Some (BinaryMessage, ''late'')) True]) (init (sconst 7))) 1
   \<and> looping (run (paired @ [Expire 0, Expire 1, CtxDone 0, CtxDone 1,
      Read 0 (Some (BinaryMessage, ''late'')) True]) (init (sconst 7))) 0
   \<and> looping (run (paired @ [Expire 0, Expire 1, CtxDone 0, CtxDone 1,
      Read 0 (Some (BinaryMessage, ''late'')) True]) (init (sconst 7))) 1
   \<and> sent (run (paired @ [Expire 0, Expire 1, CtxDone 0, CtxDone 1,
      Read 0 (Some (BinaryMessage, ''late'')) True]) (init (sconst 7))) 1 =
     [Message BinaryMessage ''late'']"
  unfolding run_append paired_state
  by (simp add: model_defs)

text \<open>
  Claim C4, amended. The context is consulted only by a goroutine waiting in one of its
  two \<^verbatim>\<open>select\<close> statements, before pairing: there its expiry closes the connection with
  4001 (the booker after releasing its code). Elsewhere the \<open>CtxDone\<close> event changes
  nothing. The read loop does not look at the context: a frame read after expiry is
  forwarded as before, and the loop of a handler ends only through its own read, on a
  read error, on a frame read while \<^verbatim>\<open>rconn\<close> is nil, or on a failed write.
\<close>

theorem deadline_only_at_select:
  "(looping s c \<and> rconn s c = Some rc \<longrightarrow>
      sent (step (Read c (Some (t, p)) True) (step (Expire c) s)) rc = sent s rc @ [Message t p]
      \<and> looping (step (Read c (Some (t, p)) True) (step (Expire c) s)) c)
   \<and> ((\<forall>sc. pc s c \<noteq> L130 sc \<and> pc s c \<noteq> L165 sc) \<longrightarrow> step (CtxDone c) s = s)
   \<and> (looping s c \<and> \<not> looping (step e s) c \<longrightarrow>
        (\<exists>r wok. e = Read c r wok \<and> (r = None \<or> rconn s c = None \<or> \<not> wok)))
   \<and> (pc s c = L130 sc \<and> lock s = None \<longrightarrow>
        sent (run [Expire c, CtxDone c, Go c, Go c, Go c, Go c] s) c =
          sent s c @ [CloseFrame 4001 ''timed out'', ConnClosed]
        \<and> slots (run [Expire c, CtxDone c, Go c, Go c, Go c, Go c] s) (slotkey s c) = None)
   \<and> (pc s c = L165 sc \<longrightarrow>
        sent (run [Expire c, CtxDone c] s) c =
          sent s c @ [CloseFrame 4001 ''timed out'', ConnClosed])"
proof -
  have a: "sent (step (Read c (Some (t, p)) True) (step (Expire c) s)) rc =
        sent s rc @ [Message t p]
      \<and> looping (step (Read c (Some (t, p)) True) (step (Expire c) s)) c"
    if "looping s c" and "rconn s c = Some rc"
    using that by (simp add: expire_def read_loop_def emit_def)
  have b: "step (CtxDone c) s = s" if "\<forall>sc. pc s c \<noteq> L130 sc \<and> pc s c \<noteq> L165 sc"
    using that by (auto simp: ctx_done_def split: gpc.splits)
  have d: "sent (run [Expire c, CtxDone c, Go c, Go c, Go c, Go c] s) c =
        sent s c @ [CloseFrame 4001 ''timed out'', ConnClosed]
      \<and> slots (run [Expire c, CtxDone c, Go c, Go c, Go c, Go c] s) (slotkey s c) = None"
    if "pc s c = L130 sc" and "lock s = None"
    using that
    by (simp add: expire_def ctx_done_def go_def goto_def emit_def CloseSlotTimedOut_def)
  have f: "sent (run [Expire c, CtxDone c] s) c =
        sent s c @ [CloseFrame 4001 ''timed out'', ConnClosed]"
    if "pc s c = L165 sc"
    using that by (simp add: expire_def ctx_done_def goto_def emit_def CloseSlotTimedOut_def)
  from a b d f loop_exit [of s c e] show ?thesis
    by blast
qed

theorem deadline_only_at_select_witness:
  "looping (run paired (init (sconst 7))) 0
   \<and> rconn (run paired (init (sconst 7))) 0 = Some 1
   \<and> sent (step (Read 0 (Some (BinaryMessage, ''late'')) True)
        (step (Expire 0) (run paired (init (sconst 7))))) 1 = [Message BinaryMessage ''late'']
   \<and> looping (step (Read 0 (Some (BinaryMessage, ''late'')) True)
        (step (Expire 0) (run paired (init (sconst 7))))) 0"
proof -
  have h: "looping (run paired (init (sconst 7))) 0 \<and>
      rconn (run paired (init (sconst 7))) 0 = Some 1"
    by (simp add: paired_state)
  have "sent (step (Read 0 (Some (BinaryMessage, ''late'')) True)
        (step (Expire 0) (run paired (init (sconst 7))))) 1 =
        sent (run paired (init (sconst 7))) 1 @ [Message BinaryMessage ''late'']
      \<and> looping (step (Read 0 (Some (BinaryMessage, ''late'')) True)
        (step (Expire 0) (run paired (init (sconst 7))))) 0"
    using deadline_only_at_select [of "run paired (init (sconst 7))" 0 1 BinaryMessage
        "''late''"] h
    by blast
  moreover have "sent (run paired (init (sconst 7))) 1 = []"
    by (simp add: paired_state)
  ultimately show ?thesis
    using h by simp
qed

section \<open>Two paths that return too early or too late\<close>

lemma write_code_failed:
  assumes "pc s c = L125 sc"
  shows "step (WriteCode c False) s = s\<lparr>pc := (pc s)(c := Returned)\<rparr>"
  using assms by (simp add: write_code_def goto_def)

lemma returned_stays:
  assumes "pc s c = Returned"
  shows "pc (step e s) c = Returned"
proof (cases e)
  case (Upgrade c' key)
  then show ?thesis
    using assms by (auto simp: upgrade_def)
next
  case (Go c')
  have "pc (go c' s) c = Returned"
  proof -
    have "c' = c \<or> c \<noteq> c'" by auto
    then show ?thesis
    proof
      assume "c' = c"
      then show ?thesis
        using assms go_joiner(5) [of s c] by simp
    next
      assume "c \<noteq> c'"
      then show ?thesis
        using assms go_other(1) [of c c' s] by simp
    qed
  qed
  then show ?thesis
    using Go by simp
next
  case (WriteCode c' ok)
  then show ?thesis
    using assms by (auto simp: write_code_def goto_def emit_def split: gpc.splits)
next
  case (Expire c')
  then show ?thesis
    using assms by (auto simp: expire_def)
next
  case (CtxDone c')
  then show ?thesis
    using assms by (auto simp: ctx_done_def goto_def emit_def split: gpc.splits)
next
  case (Handoff a b)
  define q where "q = pc (handoff a b s) c"
  have "pc s c = q
      \<or> (q = after_send (pc s c) \<and> sending (pc s c) \<noteq> None)
      \<or> (q = after_recv (pc s c) \<and> receiving (pc s c) \<noteq> None)"
    using handoff_pc [of a b s c q] q_def by auto
  then show ?thesis
    using assms Handoff q_def by auto
next
  case (Read c' r wok)
  then show ?thesis
    using assms
    by (auto simp: read_loop_def loop_return_def emit_def split: option.splits)
qed

lemma send_waits:
  assumes "pc s c = L175 sc"
  shows "pc (step e s) c = L175 sc
    \<or> pc (step e s) c = Returned \<and> (\<exists>b. e = Handoff c b \<and> receiving (pc s b) = Some sc)"
proof (cases e)
  case (Upgrade c' key)
  then show ?thesis
    using assms by (auto simp: upgrade_def)
next
  case (Go c')
  have "pc (go c' s) c = L175 sc"
  proof -
    have "c' = c \<or> c \<noteq> c'" by auto
    then show ?thesis
    proof
      assume "c' = c"
      then show ?thesis
        using assms go_joiner(4) [of s c sc] by simp
    next
      assume "c \<noteq> c'"
      then show ?thesis
        using assms go_other(1) [of c c' s] by simp
    qed
  qed
  then show ?thesis
    using Go by simp
next
  case (WriteCode c' ok)
  then show ?thesis
    using assms by (auto simp: write_code_def goto_def emit_def split: gpc.splits)
next
  case (Expire c')
  then show ?thesis
    using assms by (auto simp: expire_def)
next
  case (CtxDone c')
  then show ?thesis
    using assms by (auto simp: ctx_done_def goto_def emit_def split: gpc.splits)
next
  case (Handoff a b)
  then show ?thesis
    using assms by (auto simp: handoff_def split: option.splits)
next
  case (Read c' r wok)
  then show ?thesis
    using assms
    by (auto simp: read_loop_def loop_return_def emit_def split: option.splits)
qed

text \<open>
  Claim C5 describes what the specification asks for; the code does not do it. The
  \<^verbatim>\<open>case <-ctx.Done()\<close> branch of the joiner's \<^verbatim>\<open>select\<close> (lines 166 to 172) has no
  \<^verbatim>\<open>return\<close>, unlike the booker's (line 142). Here connection 0 books code \<^verbatim>\<open>7\<close>,
  connection 1 joins it and waits, and the deadline of connection 1 fires: connection 1
  is sent close code 4001 and is closed, and its goroutine then stands at line 175, the
  channel send \<^verbatim>\<open>sc <- conn\<close>, not at its end.
\<close>

theorem joiner_timeout_falls_through:
  "sent (run [Upgrade 0 [], Go 0, Go 0, Go 0, Go 0, Go 0, WriteCode 0 False,
        Upgrade 1 ''7'', Go 1, Go 1, Go 1, Go 1, Go 1, Expire 1, CtxDone 1]
        (init (sconst 7))) 1 =
     [CloseFrame 4001 ''timed out'', ConnClosed]
   \<and> pc (run [Upgrade 0 [], Go 0, Go 0, Go 0, Go 0, Go 0, WriteCode 0 False,
        Upgrade 1 ''7'', Go 1, Go 1, Go 1, Go 1, Go 1, Expire 1]
        (init (sconst 7))) 1 = L165 0
   \<and> pc (run [Upgrade 0 [], Go 0, Go 0, Go 0, Go 0, Go 0, WriteCode 0 False,
        Upgrade 1 ''7'', Go 1, Go 1, Go 1, Go 1, Go 1, Expire 1, CtxDone 1]
        (init (sconst 7))) 1 = L175 0"
  by (simp add: model_defs alloc_eval CloseSlotTimedOut_def)

text \<open>
  Claim C6 describes what the specification asks for; the code does not do it. When
  \<^verbatim>\<open>WriteMessage\<close> fails at line 125 the goroutine logs the error and returns (lines 126
  to 129) without the \<^verbatim>\<open>delete\<close> that the timeout branch performs (line 134). Here the
  write of code \<^verbatim>\<open>7\<close> to connection 0 fails: the goroutine has returned and \<^verbatim>\<open>7\<close> is
  still in the table, also after the handler's read loop has ended on a read error and
  the context is done.
\<close>

theorem failed_code_write_keeps_slot:
  "pc (run [Upgrade 0 [], Go 0, Go 0, Go 0, Go 0, Go 0, WriteCode 0 False]
        (init (sconst 7))) 0 = Returned
   \<and> slots (run [Upgrade 0 [], Go 0, Go 0, Go 0, Go 0, Go 0, WriteCode 0 False]
        (init (sconst 7))) ''7'' = Some 0
   \<and> slots (run [Upgrade 0 [], Go 0, Go 0, Go 0, Go 0, Go 0, WriteCode 0 False,
        Read 0 None True, Expire 0, CtxDone 0, Go 0] (init (sconst 7))) ''7'' = Some 0
   \<and> looping (run [Upgrade 0 [], Go 0, Go 0, Go 0, Go 0, Go 0, WriteCode 0 False,
        Read 0 None True, Expire 0, CtxDone 0, Go 0] (init (sconst 7))) 0 = False"
  by (simp add: model_defs alloc_eval)

section \<open>Timeouts and close codes\<close>

lemma attempts_all_taken:
  assumes "m ''0'' \<noteq> None"
  shows "attempts k n m (sconst 0) = (None, sconst 0)"
  using assms
  by (induction k) (auto simp: Intn_def Itoa_def formatBits.simps digits_def Let_def)

text \<open>
  Claim C7 as stated fails. Connection 0 books code \<^verbatim>\<open>7\<close> and its deadline passes; it
  deletes \<^verbatim>\<open>7\<close> and unlocks (line 135). Before it has written the close frame
  (lines 136 to 141), connection 2 books a slot and \<^verbatim>\<open>freeslot\<close> draws the freed code \<^verbatim>\<open>7\<close>
  again. When the timeout of connection 0 completes (4001 sent, connection closed), \<^verbatim>\<open>7\<close>
  is in the table, and connection 1 joining \<^verbatim>\<open>7\<close> afterwards is paired with connection 2
  instead of receiving close code 4000.
\<close>

theorem booker_timeout_counterexample:
  "pc (run (booked @ [Expire 0, CtxDone 0, Go 0, Go 0, Go 0,
        Upgrade 2 [], Go 2, Go 2, Go 2, Go 2, Go 2, WriteCode 2 True, Go 0])
        (init (sconst 7))) 0 = Returned
   \<and> sent (run (booked @ [Expire 0, CtxDone 0, Go 0, Go 0, Go 0,
        Upgrade 2 [], Go 2, Go 2, Go 2, Go 2, Go 2, WriteCode 2 True, Go 0])
        (init (sconst 7))) 0 =
      [Message TextMessage ''7'', CloseFrame 4001 ''timed out'', ConnClosed]
   \<and> slots (run (booked @ [Expire 0, CtxDone 0, Go 0, Go 0, Go 0,
        Upgrade 2 [], Go 2, Go 2, Go 2, Go 2, Go 2, WriteCode 2 True, Go 0])
        (init (sconst 7))) ''7'' = Some 1
   \<and> pc (run (booked @ [Expire 0, CtxDone 0, Go 0, Go 0, Go 0,
        Upgrade 2 [], Go 2, Go 2, Go 2, Go 2, Go 2, WriteCode 2 True, Go 0,
        Upgrade 1 ''7'', Go 1, Go 1, Go 1])
        (init (sconst 7))) 1 = L162 1
   \<and> rconn (run (booked @ [Expire 0, CtxDone 0, Go 0, Go 0, Go 0,
        Upgrade 2 [], Go 2, Go 2, Go 2, Go 2, Go 2, WriteCode 2 True, Go 0,
        Upgrade 1 ''7'', Go 1, Go 1, Go 1, Go 1, Go 1, Handoff 2 1, Handoff 1 2])
        (init (sconst 7))) 1 = Some 2
   \<and> sent (run (booked @ [Expire 0, CtxDone 0, Go 0, Go 0, Go 0,
        Upgrade 2 [], Go 2, Go 2, Go 2, Go 2, Go 2, WriteCode 2 True, Go 0,
        Upgrade 1 ''7'', Go 1, Go 1, Go 1, Go 1, Go 1, Handoff 2 1, Handoff 1 2])
        (init (sconst 7))) 1 = []"
  unfolding run_append booked_state
  by (simp add: model_defs alloc_eval CloseSlotTimedOut_def)

text \<open>
  Claim C7, amended. Let booker \<open>c\<close> wait with its channel \<open>sc\<close> at the \<^verbatim>\<open>select\<close> of line
  130 in a reachable state, its deadline passed, and let it take the \<^verbatim>\<open>ctx.Done\<close> branch.
  Whatever the handlers do afterwards, in every interleaving: \<open>c\<close> is on the timeout
  path (lines 133 to 142) and only its own goroutine moves it; there it takes the mutex
  once it is free, deletes its code from the table, unlocks, sends a close frame with
  code 4001 and message \<^verbatim>\<open>timed out\<close> and closes its connection. From the \<^verbatim>\<open>delete\<close> on,
  no key of the table maps to \<open>sc\<close> ever again, and the code is absent, so that a join
  for it ends with close code 4000, unless a later booking has been given the same code
  by \<^verbatim>\<open>freeslot\<close>: then the code maps to a channel made after the timeout.
\<close>

theorem booker_timeout_releases_entry:
  assumes "s = run evs (init g)"
    and "pc s c = L130 sc" and "ctxdone s c"
    and "s' = run evs' (step (CtxDone c) s)"
  shows
    "pc (step (CtxDone c) s) c = L133
     \<and> (pc s' c = L133 \<or> pc s' c = L134 \<or> pc s' c = L135 \<or> pc s' c = L136
          \<or> pc s' c = Returned)
     \<and> (\<forall>e. pc (step e s') c \<noteq> pc s' c \<longrightarrow> e = Go c)
     \<and> (pc s' c = L133 \<and> lock s' = None \<longrightarrow> pc (step (Go c) s') c = L134)
     \<and> (pc s' c = L134 \<longrightarrow>
          pc (step (Go c) s') c = L135
          \<and> slots (step (Go c) s') = (slots s')(slotkey s c := None))
     \<and> (pc s' c = L135 \<longrightarrow> pc (step (Go c) s') c = L136)
     \<and> (pc s' c = L136 \<longrightarrow>
          pc (step (Go c) s') c = Returned
          \<and> sent (step (Go c) s') c =
              sent s' c @ [CloseFrame 4001 ''timed out'', ConnClosed])
     \<and> (pc s' c = L135 \<or> pc s' c = L136 \<or> pc s' c = Returned \<longrightarrow>
          (\<forall>k. slots s' k \<noteq> Some sc)
          \<and> (\<forall>ch. slots s' (slotkey s c) = Some ch \<longrightarrow> nextchan s \<le> ch)
          \<and> (nextchan s' = nextchan s \<longrightarrow> slots s' (slotkey s c) = None)
          \<and> (\<forall>j. pc s' j = L151 \<and> slotkey s' j = slotkey s c
                \<and> slots s' (slotkey s c) = None \<longrightarrow>
               sent (run [Go j, Go j, Go j] s') j =
                 sent s' j @ [CloseFrame 4000 ''no such slot'', ConnClosed]))"
proof -
  define K where "K = slotkey s c"
  define s1 where "s1 = step (CtxDone c) s"
  have s1: "s1 = s\<lparr>pc := (pc s)(c := L133)\<rparr>"
    using assms(2,3) by (simp add: s1_def ctx_done_def goto_def)
  have l: "lock_inv s" and t: "table_inv s" and ci: "chan_inv s"
    using assms(1) lock_inv_reachable table_inv_reachable chan_inv_reachable by simp_all
  have l1: "lock_inv s1" and t1: "table_inv s1" and ci1: "chan_inv s1"
    using lock_inv_step [OF l, of "CtxDone c"] table_inv_step [OF l t, of "CtxDone c"]
      chan_inv_step [OF l t ci, of "CtxDone c"]
    by (simp_all add: s1_def)
  have b: "bholds (pc s c) = Some sc"
    using assms(2) by simp
  have fresh: "sc < nextchan s"
    using ci b unfolding chan_inv_def by blast
  have own: "\<forall>k. slots s k = Some sc \<longrightarrow> k = K"
    using ci b unfolding chan_inv_def K_def by blast
  have a1: "after_timeout c sc K (nextchan s) s1"
    using own by (simp add: after_timeout_def s1 K_def)
  have s': "s' = run evs' s1"
    using assms(4) by (simp add: s1_def)
  have a: "after_timeout c sc K (nextchan s) s'"
    unfolding s' using a1 fresh by (rule after_timeout_run)
  have t': "table_inv s'"
    using invs_run [of s1 evs'] l1 t1 by (simp add: s')
  have key: "slotkey s' c = K"
    using a unfolding after_timeout_def by blast
  have first: "pc (step (CtxDone c) s) c = L133"
    using s1 by (simp add: s1_def)
  have phase: "pc s' c = L133 \<or> pc s' c = L134 \<or> pc s' c = L135 \<or> pc s' c = L136
      \<or> pc s' c = Returned"
    using a unfolding after_timeout_def by blast
  have moves: "\<forall>e. pc (step e s') c \<noteq> pc s' c \<longrightarrow> e = Go c"
    using timeout_path_moves [OF phase] by blast
  have g1: "pc (step (Go c) s') c = L134" if "pc s' c = L133" and "lock s' = None"
    using that by (simp add: go_booker_timeout(1))
  have g2: "pc (step (Go c) s') c = L135
      \<and> slots (step (Go c) s') = (slots s')(slotkey s c := None)" if "pc s' c = L134"
    using that key by (simp add: go_booker_timeout(3) K_def)
  have g3: "pc (step (Go c) s') c = L136" if "pc s' c = L135"
    using that by (simp add: go_booker_timeout(4))
  have g4: "pc (step (Go c) s') c = Returned
      \<and> sent (step (Go c) s') c = sent s' c @ [CloseFrame 4001 ''timed out'', ConnClosed]"
    if "pc s' c = L136"
    using that by (simp add: go_booker_timeout(5) CloseSlotTimedOut_def)
  have rel: "(\<forall>k. slots s' k \<noteq> Some sc)
      \<and> (\<forall>ch. slots s' (slotkey s c) = Some ch \<longrightarrow> nextchan s \<le> ch)
      \<and> (nextchan s' = nextchan s \<longrightarrow> slots s' (slotkey s c) = None)
      \<and> (\<forall>j. pc s' j = L151 \<and> slotkey s' j = slotkey s c
            \<and> slots s' (slotkey s c) = None \<longrightarrow>
           sent (run [Go j, Go j, Go j] s') j =
             sent s' j @ [CloseFrame 4000 ''no such slot'', ConnClosed])"
    if p: "pc s' c = L135 \<or> pc s' c = L136 \<or> pc s' c = Returned"
  proof -
    have np: "pc s' c \<noteq> L133" "pc s' c \<noteq> L134"
      using p by auto
    have r1: "\<forall>k. slots s' k \<noteq> Some sc"
      and r2: "\<forall>ch. slots s' K = Some ch \<longrightarrow> nextchan s \<le> ch"
      using a np unfolding after_timeout_def by blast+
    have r3: "slots s' K = None" if same: "nextchan s' = nextchan s"
    proof (rule ccontr)
      assume "slots s' K \<noteq> None"
      then obtain ch where ch: "slots s' K = Some ch"
        by auto
      then have "nextchan s \<le> ch"
        using r2 by blast
      moreover have "ch < nextchan s'"
        using t' ch unfolding table_inv_def by blast
      ultimately show False
        using same by simp
    qed
    have r4: "sent (run [Go j, Go j, Go j] s') j =
        sent s' j @ [CloseFrame 4000 ''no such slot'', ConnClosed]"
      if j: "pc s' j = L151" "slotkey s' j = K" "slots s' K = None" for j
    proof -
      have n: "slots s' (slotkey s' j) = None"
        using j by simp
      show ?thesis
        unfolding join_missing [OF j(1) n] by (simp add: CloseNoSuchSlot_def)
    qed
    from r1 r2 r3 r4 show ?thesis
      unfolding K_def by blast
  qed
  from first phase moves g1 g2 g3 g4 rel show ?thesis
    by blast
qed

theorem booker_timeout_releases_entry_witness:
  "pc (run (booked @ [Expire 0]) (init (sconst 7))) 0 = L130 0
   \<and> ctxdone (run (booked @ [Expire 0]) (init (sconst 7))) 0
   \<and> pc (run (booked @ [Expire 0, CtxDone 0, Go 0, Go 0, Go 0, Go 0,
        Upgrade 1 ''7'', Go 1, Go 1]) (init (sconst 7))) 0 = Returned
   \<and> slots (run (booked @ [Expire 0, CtxDone 0, Go 0, Go 0, Go 0, Go 0,
        Upgrade 1 ''7'', Go 1, Go 1]) (init (sconst 7))) ''7'' = None
   \<and> sent (run (booked @ [Expire 0, CtxDone 0, Go 0, Go 0, Go 0, Go 0,
        Upgrade 1 ''7'', Go 1, Go 1, Go 1, Go 1, Go 1]) (init (sconst 7))) 1 =
      [CloseFrame 4000 ''no such slot'', ConnClosed]"
proof -
  define s where "s = run (booked @ [Expire 0]) (init (sconst 7))"
  define s' where
    "s' = run [Go 0, Go 0, Go 0, Go 0, Upgrade 1 ''7'', Go 1, Go 1] (step (CtxDone 0) s)"
  have s: "s = step (Expire 0) (run booked (init (sconst 7)))"
    by (simp add: s_def run_append)
  have h1: "pc s 0 = L130 0" and h2: "ctxdone s 0" and h3: "slotkey s 0 = ''7''"
    unfolding s booked_state by (simp_all add: model_defs)
  have h4: "pc s' 0 = Returned" and h5: "pc s' 1 = L151" and h6: "slotkey s' 1 = ''7''"
    and h7: "nextchan s' = nextchan s" and h8: "sent s' 1 = []"
    unfolding s'_def s booked_state by (simp_all add: model_defs)
  have "pc s' 0 = L135 \<or> pc s' 0 = L136 \<or> pc s' 0 = Returned \<longrightarrow>
      (\<forall>k. slots s' k \<noteq> Some 0)
      \<and> (\<forall>ch. slots s' (slotkey s 0) = Some ch \<longrightarrow> nextchan s \<le> ch)
      \<and> (nextchan s' = nextchan s \<longrightarrow> slots s' (slotkey s 0) = None)
      \<and> (\<forall>j. pc s' j = L151 \<and> slotkey s' j = slotkey s 0
            \<and> slots s' (slotkey s 0) = None \<longrightarrow>
           sent (run [Go j, Go j, Go j] s') j =
             sent s' j @ [CloseFrame 4000 ''no such slot'', ConnClosed])"
    using booker_timeout_releases_entry [OF s_def h1 h2 s'_def] by blast
  then have n: "slots s' ''7'' = None"
    and "sent (run [Go 1, Go 1, Go 1] s') 1 =
      sent s' 1 @ [CloseFrame 4000 ''no such slot'', ConnClosed]"
    using h3 h4 h5 h6 h7 by auto
  then have r: "sent (run [Go 1, Go 1, Go 1] s') 1 =
      [CloseFrame 4000 ''no such slot'', ConnClosed]"
    using h8 by simp
  have e1: "run [Go 1, Go 1, Go 1] s' =
      run (booked @ [Expire 0, CtxDone 0, Go 0, Go 0, Go 0, Go 0,
        Upgrade 1 ''7'', Go 1, Go 1, Go 1, Go 1, Go 1]) (init (sconst 7))"
    unfolding s'_def s_def by (simp add: run_append)
  have e2: "s' = run (booked @ [Expire 0, CtxDone 0, Go 0, Go 0, Go 0, Go 0,
        Upgrade 1 ''7'', Go 1, Go 1]) (init (sconst 7))"
    unfolding s'_def s_def by (simp add: run_append)
  from h1 h2 h4 n r show ?thesis
    unfolding e1 [symmetric] e2 [symmetric] s_def [symmetric] by simp
qed

lemma freeslot_all_taken:
  assumes "m ''0'' \<noteq> None"
  shows "freeslot m (sconst 0) = (([], False), sconst 0)"
  using assms attempts_all_taken [of m] unfolding freeslot_def by simp

text \<open>
  Claim C8. The three close codes are 4000, 4001 and 4002. A join whose code is not in
  the table at the lookup of line 151 is closed with 4000 and \<^verbatim>\<open>no such slot\<close>; a
  booking for which \<^verbatim>\<open>freeslot\<close> fails is closed with 4002 and
  \<^verbatim>\<open>cannot allocate slots\<close>; a booker or a joiner whose context is done while it waits
  in its \<^verbatim>\<open>select\<close> is closed with 4001 and \<^verbatim>\<open>timed out\<close>. In every reachable state,
  every close frame written to any connection is one of these three.
\<close>

theorem close_codes:
  "CloseNoSuchSlot = 4000 \<and> CloseSlotTimedOut = 4001 \<and> CloseNoMoreSlots = 4002
   \<and> (pc s c = L151 \<and> slots s (slotkey s c) = None \<longrightarrow>
        sent (run [Go c, Go c, Go c] s) c =
          sent s c @ [CloseFrame 4000 ''no such slot'', ConnClosed]
        \<and> pc (run [Go c, Go c, Go c] s) c = Returned)
   \<and> (pc s c = L109 \<and> \<not> snd (fst (freeslot (slots s) (rng s))) \<longrightarrow>
        sent (run [Go c, Go c, Go c] s) c =
          sent s c @ [CloseFrame 4002 ''cannot allocate slots'', ConnClosed]
        \<and> pc (run [Go c, Go c, Go c] s) c = Returned)
   \<and> (pc s c = L130 sc \<and> ctxdone s c \<and> lock s = None \<longrightarrow>
        sent (run [CtxDone c, Go c, Go c, Go c, Go c] s) c =
          sent s c @ [CloseFrame 4001 ''timed out'', ConnClosed]
        \<and> pc (run [CtxDone c, Go c, Go c, Go c, Go c] s) c = Returned)
   \<and> (pc s c = L165 sc \<and> ctxdone s c \<longrightarrow>
        sent (step (CtxDone c) s) c = sent s c @ [CloseFrame 4001 ''timed out'', ConnClosed])
   \<and> (\<forall>c' code reason. CloseFrame code reason \<in> set (sent (run evs (init g)) c') \<longrightarrow>
        (code, reason) \<in> {(4000, ''no such slot''), (4001, ''timed out''),
          (4002, ''cannot allocate slots'')})"
proof -
  have codes: "CloseNoSuchSlot = 4000 \<and> CloseSlotTimedOut = 4001 \<and> CloseNoMoreSlots = 4002"
    by (simp add: CloseNoSuchSlot_def CloseSlotTimedOut_def CloseNoMoreSlots_def)
  have a: "sent (run [Go c, Go c, Go c] s) c =
        sent s c @ [CloseFrame 4000 ''no such slot'', ConnClosed]
      \<and> pc (run [Go c, Go c, Go c] s) c = Returned"
    if "pc s c = L151" and "slots s (slotkey s c) = None"
    unfolding join_missing [OF that] using codes by simp
  have b: "sent (run [Go c, Go c, Go c] s) c =
        sent s c @ [CloseFrame 4002 ''cannot allocate slots'', ConnClosed]
      \<and> pc (run [Go c, Go c, Go c] s) c = Returned"
    if h1: "pc s c = L109" and h2: "\<not> snd (fst (freeslot (slots s) (rng s)))"
  proof -
    obtain x g' where x: "freeslot (slots s) (rng s) = ((x, False), g')"
      using h2 by (metis prod.collapse)
    show ?thesis
      unfolding alloc_exhausted [OF h1 x] using codes by simp
  qed
  have d: "sent (run [CtxDone c, Go c, Go c, Go c, Go c] s) c =
        sent s c @ [CloseFrame 4001 ''timed out'', ConnClosed]
      \<and> pc (run [CtxDone c, Go c, Go c, Go c, Go c] s) c = Returned"
    if "pc s c = L130 sc" and "ctxdone s c" and "lock s = None"
    unfolding book_timeout [OF that] using codes by simp
  have e: "sent (step (CtxDone c) s) c =
        sent s c @ [CloseFrame 4001 ''timed out'', ConnClosed]"
    if "pc s c = L165 sc" and "ctxdone s c"
    unfolding join_timeout [OF that] using codes by simp
  have f: "\<forall>c' code reason. CloseFrame code reason \<in> set (sent (run evs (init g)) c') \<longrightarrow>
      (code, reason) \<in> {(4000, ''no such slot''), (4001, ''timed out''),
        (4002, ''cannot allocate slots'')}"
    using close_inv_reachable [of evs g] unfolding close_inv_def by blast
  from codes a b d e f show ?thesis
    by blast
qed

theorem close_codes_witness:
  "pc (run [Upgrade 0 [], Go 0, Go 0, Go 0, Go 0, Go 0, WriteCode 0 True,
        Upgrade 1 [], Go 1, Go 1] (init (sconst 0))) 1 = L109
   \<and> slots (run [Upgrade 0 [], Go 0, Go 0, Go 0, Go 0, Go 0, WriteCode 0 True,
        Upgrade 1 [], Go 1, Go 1] (init (sconst 0))) ''0'' = Some 0
   \<and> sent (run [Upgrade 0 [], Go 0, Go 0, Go 0, Go 0, Go 0, WriteCode 0 True,
        Upgrade 1 [], Go 1, Go 1, Go 1, Go 1, Go 1] (init (sconst 0))) 1 =
      [CloseFrame 4002 ''cannot allocate slots'', ConnClosed]"
proof -
  define s where "s = run [Upgrade 0 [], Go 0, Go 0, Go 0, Go 0, Go 0, WriteCode 0 True,
    Upgrade 1 [], Go 1, Go 1] (init (sconst 0))"
  have s: "s = \<lparr>slots = [''0'' \<mapsto> 0], lock = Some 1, nextchan = Suc 0, rng = sconst 0,
      pc = (\<lambda>c. Idle)(0 := L130 0, 1 := L109), looping = (\<lambda>c. False)(0 := True, 1 := True),
      slotkey = (\<lambda>c. [])(0 := ''0'', 1 := []), rconn = (\<lambda>c. None),
      ctxdone = (\<lambda>c. False),
      sent = (\<lambda>c. [])(0 := [Message TextMessage ''0''])\<rparr>"
    unfolding s_def by (simp add: model_defs alloc_eval)
  have full: "freeslot (slots s) (rng s) = (([], False), sconst 0)"
    using freeslot_all_taken [of "[''0'' \<mapsto> 0]"] by (simp add: s)
  have h: "pc s 1 = L109 \<and> \<not> snd (fst (freeslot (slots s) (rng s)))"
    unfolding full by (simp add: s)
  have "sent (run [Go 1, Go 1, Go 1] s) 1 =
      sent s 1 @ [CloseFrame 4002 ''cannot allocate slots'', ConnClosed]"
    using close_codes [of s 1] h by blast
  moreover have "sent s 1 = []" and "slots s ''0'' = Some 0"
    by (simp_all add: s)
  ultimately show ?thesis
    using h unfolding s_def by simp
qed

section \<open>A frame read before pairing\<close>

text \<open>
  Claim C9 as stated fails. Connection 0 has booked code \<^verbatim>\<open>7\<close> and waits for a joiner;
  its \<^verbatim>\<open>rconn\<close> is nil. Its client sends a text frame. The read loop returns, the
  deferred \<^verbatim>\<open>cancel()\<close> ends the context (no timer fires in this run), the goroutine takes
  the \<^verbatim>\<open>ctx.Done()\<close> branch of its \<^verbatim>\<open>select\<close>, and the server sends close code 4001 to
  connection 0 before closing it.
\<close>

theorem early_frame_counterexample:
  "rconn (run booked (init (sconst 7))) 0 = None
   \<and> looping (run booked (init (sconst 7))) 0
   \<and> looping (run (booked @ [Read 0 (Some (TextMessage, ''hi'')) True])
        (init (sconst 7))) 0 = False
   \<and> sent (run (booked @ [Read 0 (Some (TextMessage, ''hi'')) True, CtxDone 0,
        Go 0, Go 0, Go 0, Go 0]) (init (sconst 7))) 0 =
      [Message TextMessage ''7'', CloseFrame 4001 ''timed out'', ConnClosed]"
  unfolding run_append booked_state
  by (simp add: model_defs CloseSlotTimedOut_def)

text \<open>
  Claim C9, amended. When the read loop of a handler receives a frame while its
  \<^verbatim>\<open>rconn\<close> is nil, the loop ends; the step writes nothing to any connection (no close
  frame, and the frame is not forwarded) and changes nothing but the context, which the
  deferred \<^verbatim>\<open>cancel()\<close> ends. If the goroutine of that handler is a booker waiting at the
  \<^verbatim>\<open>select\<close> of line 130, it then takes the \<^verbatim>\<open>ctx.Done()\<close> branch: it deletes its code
  and the connection is sent close code 4001 with the reason \<^verbatim>\<open>timed out\<close> and closed.
\<close>

theorem early_frame_returns:
  "(looping s c \<and> rconn s c = None \<longrightarrow>
      step (Read c (Some (t, p)) wok) s =
        s\<lparr>looping := (looping s)(c := False), ctxdone := (ctxdone s)(c := True)\<rparr>)
   \<and> (looping s c \<and> rconn s c = None \<and> pc s c = L130 sc \<and> lock s = None \<longrightarrow>
        run [Read c (Some (t, p)) wok, CtxDone c, Go c, Go c, Go c, Go c] s =
          s\<lparr>slots := (slots s)(slotkey s c := None), lock := None,
            pc := (pc s)(c := Returned), looping := (looping s)(c := False),
            ctxdone := (ctxdone s)(c := True),
            sent := (sent s)(c := sent s c @ [CloseFrame 4001 ''timed out'', ConnClosed])\<rparr>)"
proof -
  have a: "step (Read c (Some (t, p)) wok) s =
      s\<lparr>looping := (looping s)(c := False), ctxdone := (ctxdone s)(c := True)\<rparr>"
    if "looping s c" and "rconn s c = None"
    using that by (simp add: read_loop_def loop_return_def)
  have b: "run [Read c (Some (t, p)) wok, CtxDone c, Go c, Go c, Go c, Go c] s =
      s\<lparr>slots := (slots s)(slotkey s c := None), lock := None,
        pc := (pc s)(c := Returned), looping := (looping s)(c := False),
        ctxdone := (ctxdone s)(c := True),
        sent := (sent s)(c := sent s c @ [CloseFrame 4001 ''timed out'', ConnClosed])\<rparr>"
    if h: "looping s c" "rconn s c = None" "pc s c = L130 sc" "lock s = None"
  proof -
    define s1 where "s1 = s\<lparr>looping := (looping s)(c := False),
      ctxdone := (ctxdone s)(c := True)\<rparr>"
    have "pc s1 c = L130 sc" and "ctxdone s1 c" and "lock s1 = None"
      using h by (simp_all add: s1_def)
    then have "run [CtxDone c, Go c, Go c, Go c, Go c] s1 =
        s1\<lparr>slots := (slots s1)(slotkey s1 c := None), lock := None,
          pc := (pc s1)(c := Returned),
          sent := (sent s1)(c := sent s1 c @
            [CloseFrame CloseSlotTimedOut ''timed out'', ConnClosed])\<rparr>"
      by (rule book_timeout)
    moreover have "run [Read c (Some (t, p)) wok, CtxDone c, Go c, Go c, Go c, Go c] s =
        run [CtxDone c, Go c, Go c, Go c, Go c] s1"
      using a [OF h(1,2)] by (simp add: s1_def)
    ultimately show ?thesis
      by (simp add: s1_def CloseSlotTimedOut_def)
  qed
  from a b show ?thesis
    by blast
qed

theorem early_frame_returns_witness:
  "looping (run booked (init (sconst 7))) 0
   \<and> rconn (run booked (init (sconst 7))) 0 = None
   \<and> pc (run booked (init (sconst 7))) 0 = L130 0
   \<and> lock (run booked (init (sconst 7))) = None
   \<and> sent (step (Read 0 (Some (TextMessage, ''hi'')) True) (run booked (init (sconst 7)))) =
        sent (run booked (init (sconst 7)))
   \<and> sent (run [Read 0 (Some (TextMessage, ''hi'')) True, CtxDone 0, Go 0, Go 0, Go 0, Go 0]
        (run booked (init (sconst 7)))) 0 =
      [Message TextMessage ''7'', CloseFrame 4001 ''timed out'', ConnClosed]"
proof -
  define s where "s = run booked (init (sconst 7))"
  have h: "looping s 0 \<and> rconn s 0 = None \<and> pc s 0 = L130 0 \<and> lock s = None"
    by (simp add: s_def booked_state)
  have "step (Read 0 (Some (TextMessage, ''hi'')) True) s =
      s\<lparr>looping := (looping s)(0 := False), ctxdone := (ctxdone s)(0 := True)\<rparr>"
    using early_frame_returns [of s 0 TextMessage "''hi''" True] h by blast
  then have a: "sent (step (Read 0 (Some (TextMessage, ''hi'')) True) s) = sent s"
    by simp
  have "run [Read 0 (Some (TextMessage, ''hi'')) True, CtxDone 0, Go 0, Go 0, Go 0, Go 0] s =
      s\<lparr>slots := (slots s)(slotkey s 0 := None), lock := None,
        pc := (pc s)(0 := Returned), looping := (looping s)(0 := False),
        ctxdone := (ctxdone s)(0 := True),
        sent := (sent s)(0 := sent s 0 @ [CloseFrame 4001 ''timed out'', ConnClosed])\<rparr>"
    using early_frame_returns [of s 0 TextMessage "''hi''" True 0] h by blast
  then have b: "sent (run [Read 0 (Some (TextMessage, ''hi'')) True, CtxDone 0,
      Go 0, Go 0, Go 0, Go 0] s) 0 =
      sent s 0 @ [CloseFrame 4001 ''timed out'', ConnClosed]"
    by simp
  have "sent s 0 = [Message TextMessage ''7'']"
    by (simp add: s_def booked_state)
  then show ?thesis
    using h a b unfolding s_def by simp
qed

section \<open>Only canonical codes can be joined\<close>

text \<open>
  Claim C10. In every reachable state every key of the table is canonical, which is the
  same as being \<^verbatim>\<open>strconv.Itoa\<close> of a number from 0 to \<open>2 ^ 24 - 1\<close>. So a joiner whose
  path suffix is not canonical finds nothing at the lookup of line 151 and is closed with
  4000; in no reachable state is such a joiner past the lookup with a channel in hand.
\<close>

theorem table_keys_canonical:
  "(\<forall>k ch. slots (run evs (init g)) k = Some ch \<longrightarrow>
      canonical k \<and> (\<exists>n<2 ^ 24. k = Itoa (int n)))
   \<and> (\<forall>c. pc (run evs (init g)) c = L151 \<and> \<not> canonical (slotkey (run evs (init g)) c) \<longrightarrow>
        slots (run evs (init g)) (slotkey (run evs (init g)) c) = None
        \<and> sent (run [Go c, Go c, Go c] (run evs (init g))) c =
            sent (run evs (init g)) c @ [CloseFrame 4000 ''no such slot'', ConnClosed]
        \<and> pc (run [Go c, Go c, Go c] (run evs (init g))) c = Returned)
   \<and> (\<forall>c sc. \<not> canonical (slotkey (run evs (init g)) c) \<longrightarrow>
        pc (run evs (init g)) c \<noteq> L162 sc \<and> pc (run evs (init g)) c \<noteq> L163 sc
        \<and> pc (run evs (init g)) c \<noteq> L165 sc \<and> pc (run evs (init g)) c \<noteq> L175 sc)"
proof -
  define s where "s = run evs (init g)"
  have ki: "key_inv s"
    unfolding s_def by (rule key_inv_reachable)
  have keys: "canonical k \<and> (\<exists>n<2 ^ 24. k = Itoa (int n))" if "slots s k = Some ch" for k ch
    using ki that canonical_iff [of k] unfolding key_inv_def by blast
  have miss: "slots s (slotkey s c) = None
      \<and> sent (run [Go c, Go c, Go c] s) c =
          sent s c @ [CloseFrame 4000 ''no such slot'', ConnClosed]
      \<and> pc (run [Go c, Go c, Go c] s) c = Returned"
    if h1: "pc s c = L151" and h2: "\<not> canonical (slotkey s c)" for c
  proof -
    have n: "slots s (slotkey s c) = None"
    proof (rule ccontr)
      assume "slots s (slotkey s c) \<noteq> None"
      then obtain ch where "slots s (slotkey s c) = Some ch"
        by auto
      then show False
        using keys h2 by blast
    qed
    show ?thesis
      unfolding join_missing [OF h1 n] using n by (simp add: CloseNoSuchSlot_def)
  qed
  have never: "pc s c \<noteq> L162 sc \<and> pc s c \<noteq> L163 sc \<and> pc s c \<noteq> L165 sc \<and> pc s c \<noteq> L175 sc"
    if "\<not> canonical (slotkey s c)" for c sc
    using ki that unfolding key_inv_def by blast
  from keys miss never show ?thesis
    unfolding s_def by blast
qed

theorem table_keys_canonical_witness:
  "slots (run (booked @ [Upgrade 1 ''007'', Go 1, Go 1]) (init (sconst 7))) ''7'' = Some 0
   \<and> canonical ''7''
   \<and> pc (run (booked @ [Upgrade 1 ''007'', Go 1, Go 1]) (init (sconst 7))) 1 = L151
   \<and> slotkey (run (booked @ [Upgrade 1 ''007'', Go 1, Go 1]) (init (sconst 7))) 1 = ''007''
   \<and> \<not> canonical ''007''
   \<and> sent (run [Go 1, Go 1, Go 1]
        (run (booked @ [Upgrade 1 ''007'', Go 1, Go 1]) (init (sconst 7)))) 1 =
      [CloseFrame 4000 ''no such slot'', ConnClosed]"
proof -
  define s where "s = run (booked @ [Upgrade 1 ''007'', Go 1, Go 1]) (init (sconst 7))"
  have s: "slots s ''7'' = Some 0" "pc s 1 = L151" "slotkey s 1 = ''007''" "sent s 1 = []"
    unfolding s_def run_append booked_state by (simp_all add: model_defs)
  have c: "canonical ''7''" "\<not> canonical ''007''"
    by (simp_all add: canonical_def digits_def decval_def digitval_def)
  have "canonical ''7'' \<and> (\<exists>n<2 ^ 24. ''7'' = Itoa (int n))"
    using table_keys_canonical [of "booked @ [Upgrade 1 ''007'', Go 1, Go 1]" "sconst 7"] s(1)
    unfolding s_def by blast
  moreover have "sent (run [Go 1, Go 1, Go 1] s) 1 =
      sent s 1 @ [CloseFrame 4000 ''no such slot'', ConnClosed]"
    using table_keys_canonical [of "booked @ [Upgrade 1 ''007'', Go 1, Go 1]" "sconst 7"]
      s(2,3) c(2)
    unfolding s_def by force
  ultimately show ?thesis
    using s c unfolding s_def by simp
qed

end
